theory Spec2Isabelle
  imports Main "HOL-Library.Multiset"
begin

section \<open>Event dispatch and the wait registry\<close>

text \<open>
  \<open>dispatch\<close>, \<open>_queue_task\<close> and \<open>wait_for\<close> (lines 353 to 367 and 500 to 543). An event
  is known to the dispatcher by its \<open>resolved_name\<close> and by the number of fields its class
  declares (\<open>__attrs_attrs__\<close>): an event with a single field is handed to no listener as
  an argument.
\<close>

record event =
  resolved_name :: string
  attrs_attrs :: "string list"

text \<open>
  What awaiting a listener does. \<open>_async_wrap\<close> tells \<open>asyncio.CancelledError\<close>, an
  instance of \<open>Exception\<close>, and any other exception apart. Of the exceptions it does not
  catch, the event loop tells \<open>SystemExit\<close> and \<open>KeyboardInterrupt\<close> from the rest
  (\<open>BaseException\<close> here): the step of a task stores any exception in the task, and
  raises these two again, out of the loop.
\<close>

datatype listener_exn =
    CancelledError
  | Exception string
  | SystemExit
  | KeyboardInterrupt
  | BaseException string

datatype run = Completes | Raises listener_exn

text \<open>A listener is called with the event, or with no argument (\<open>None\<close> here).\<close>

type_synonym listener = "event option \<Rightarrow> run"

record task =
  task_coro :: listener
  task_event :: event







text \<open>
  A pending wait: the \<open>Wait\<close> object that \<open>wait_for\<close> builds from the event name, the
  predicate and a new future. The \<open>Wait\<close> class is not part of \<open>client.py\<close>; the predicate
  is kept abstract (\<open>'c\<close>), and \<open>dispatch\<close> takes what the call \<open>_wait(event)\<close> does as a
  parameter \<open>call\<close>: \<open>Some b\<close> when the call returns, with \<open>b\<close> the truth value of the
  result, and \<open>None\<close> when it raises.
\<close>

record 'c wait =
  wait_event :: string
  wait_checks :: 'c
  wait_future :: nat

text \<open>
  The state of a future of the event loop, as far as \<open>asyncio.wait_for\<close> changes it.
\<close>

datatype future = Waiting | Cancelled

record 'c registry =
  listeners :: "string \<rightharpoonup> listener list"
  waits :: "string \<rightharpoonup> 'c wait list"
  futures :: "future list"
  running_loop :: bool

datatype dispatch_error = BotException string | Wait_raised | IndexError

text \<open>
  \<open>list.pop(idx)\<close> for each recorded index in turn, on the list as the earlier pops left
  it. An index at or beyond the current length raises \<open>IndexError\<close>; the pops already done
  stay done.
\<close>

fun pop_all :: "nat list \<Rightarrow> 'a list \<Rightarrow> 'a list \<times> dispatch_error option" where
  "pop_all [] ws = (ws, None)"
| "pop_all (idx # idxs) ws =
     (if idx < length ws then pop_all idxs (take idx ws @ drop (Suc idx) ws)
      else (ws, Some IndexError))"

definition index_to_remove :: "('w \<Rightarrow> bool) \<Rightarrow> 'w list \<Rightarrow> nat list" where
  "index_to_remove result ws = map fst (filter (\<lambda>(i, w). result w) (enumerate 0 ws))"

text \<open>
  \<open>dispatch\<close>. A task is created for each listener; \<open>asyncio.create_task\<close> raises when no
  event loop is running, which \<open>dispatch\<close> turns into a \<open>BotException\<close> before it looks at
  the waits. Then every pending wait of the event's name is called, the positions of
  those that return true are recorded, and the recorded positions are popped; a wait
  whose call raises ends \<open>dispatch\<close> with that exception (\<open>Wait_raised\<close>) before any pop.
  The list popped is the one stored in \<open>self.waits\<close>, or a fresh empty list when the name
  has none. The result is the registry after the call, the tasks created, and the
  exception the call raises, if any.
\<close>

definition dispatch ::
  "('c wait \<Rightarrow> event \<Rightarrow> bool option) \<Rightarrow> 'c registry \<Rightarrow> event \<Rightarrow>
   'c registry \<times> task list \<times> dispatch_error option" where
  "dispatch call r ev =
     (let ls = (case listeners r (resolved_name ev) of None \<Rightarrow> [] | Some l \<Rightarrow> l) in
      if ls \<noteq> [] \<and> \<not> running_loop r then
        (r, [], Some (BotException (''An error occurred attempting during '' @
                                    resolved_name ev @ '' event processing'')))
      else
        let tasks = map (\<lambda>l. \<lparr>task_coro = l, task_event = ev\<rparr>) ls in
        (case waits r (resolved_name ev) of
           None \<Rightarrow> (r, tasks, None)
         | Some ws \<Rightarrow>
             (if list_ex (\<lambda>w. call w ev = None) ws then (r, tasks, Some Wait_raised)
              else
                (let (ws', err) = pop_all (index_to_remove (\<lambda>w. call w ev = Some True) ws) ws
                 in (r\<lparr>waits := (waits r)(resolved_name ev \<mapsto> ws')\<rparr>, tasks, err)))))"

text \<open>
  \<open>wait_for\<close>: the table gets an entry for the name if it has none, a future is created,
  and the new wait is appended. The call returns the awaitable
  \<open>asyncio.wait_for(future, timeout)\<close>, here the number of the future.
\<close>

definition wait_for :: "'c registry \<Rightarrow> string \<Rightarrow> 'c \<Rightarrow> 'c registry \<times> nat" where
  "wait_for r name checks =
     (let ws = (case waits r name of None \<Rightarrow> [] | Some l \<Rightarrow> l);
          fut = length (futures r)
      in (r\<lparr>waits := (waits r)(name \<mapsto> ws @ [\<lparr>wait_event = name, wait_checks = checks,
                                                    wait_future = fut\<rparr>]),
            futures := futures r @ [Waiting]\<rparr>, fut))"

datatype wait_error = Timeout_error

text \<open>
  The timeout of the awaitable elapsing before the future is resolved. This is the
  behaviour of the library function \<open>asyncio.wait_for\<close>: it cancels the future and raises
  a timeout error. Nothing of the client runs at that moment, so the tables of the client
  are as they were.
\<close>

definition timeout_elapses :: "'c registry \<Rightarrow> nat \<Rightarrow> 'c registry \<times> wait_error" where
  "timeout_elapses r fut = (r\<lparr>futures := (futures r)[fut := Cancelled]\<rparr>, Timeout_error)"





definition table_size :: "'c registry \<Rightarrow> string \<Rightarrow> nat" where
  "table_size r name = (case waits r name of None \<Rightarrow> 0 | Some ws \<Rightarrow> length ws)"

definition table :: "'c registry \<Rightarrow> string \<Rightarrow> 'c wait list" where
  "table r name = (case waits r name of None \<Rightarrow> [] | Some ws \<Rightarrow> ws)"

text \<open>
  What may happen to the registry between the registration of a wait and the end of its
  timeout: other calls of \<open>wait_for\<close>, dispatches, and timeouts. A dispatch comes with what
  the calls of the waits do at that moment.
\<close>

datatype 'c step =
    Wait_for string 'c
  | Dispatch "'c wait \<Rightarrow> event \<Rightarrow> bool option" event
  | Timeout nat

fun do_step :: "'c registry \<Rightarrow> 'c step \<Rightarrow> 'c registry" where
  "do_step r (Wait_for name checks) = fst (wait_for r name checks)"
| "do_step r (Dispatch call ev) = fst (dispatch call r ev)"
| "do_step r (Timeout fut) = fst (timeout_elapses r fut)"

fun do_steps :: "'c registry \<Rightarrow> 'c step list \<Rightarrow> 'c registry" where
  "do_steps r [] = r"
| "do_steps r (s # ss) = do_steps (do_step r s) ss"

text \<open>
  The steps leave a wait \<open>w\<close> of a name alone: no event dispatched under the name
  satisfies \<open>w\<close>, and none satisfies two or more of the waits pending under the name at
  that moment (which is when the recorded positions shift).
\<close>

fun leaves_alone :: "'c wait \<Rightarrow> 'c registry \<Rightarrow> 'c step \<Rightarrow> bool" where
  "leaves_alone w r (Dispatch call ev) =
     (resolved_name ev \<noteq> wait_event w \<or>
      (call w ev \<noteq> Some True \<and>
       length (filter (\<lambda>x. call x ev = Some True) (table r (wait_event w))) \<le> 1))"
| "leaves_alone w r s = True"

fun leave_alone :: "'c wait \<Rightarrow> 'c registry \<Rightarrow> 'c step list \<Rightarrow> bool" where
  "leave_alone w r [] = True"
| "leave_alone w r (s # ss) = (leaves_alone w r s \<and> leave_alone w (do_step r s) ss)"

section \<open>The reconnect loop: \<open>Snake._ws_connect\<close>\<close>

text \<open>
  The loop of \<open>client.py\<close> lines 293 to 351. One pass of the loop makes one connection
  attempt (\<open>WebsocketClient.connect\<close>, then \<open>ws.run\<close>), and the way the attempt ends
  decides what the loop does next. The gateway is outside the client, so the model takes
  the way each attempt ends as its input: a list of attempts, consumed one per pass. The
  handlers call \<open>dispatch\<close> of the section before.

  The exceptions are kept as far as the handlers tell them apart: the class the
  \<open>except\<close> clauses test, the \<open>resume\<close> attribute of a restart request, the \<open>code\<close> of a
  close, the \<open>errno\<close> of an operating-system error. An exception that is an
  \<open>aiohttp.ClientError\<close> and an \<open>OSError\<close> at once is an \<open>OSError\<close> here, since the only
  test that separates the members of the second \<open>except\<close> clause is
  \<open>isinstance(ex, OSError)\<close>. \<open>OtherException\<close> is any other instance of \<open>Exception\<close>,
  \<open>OtherBaseException\<close> an exception no clause catches.
\<close>

datatype exn =
    WebSocketRestart bool
  | WebSocketClosed int
  | OSError "int option"
  | GatewayNotFound
  | ClientError
  | TimeoutError
  | OtherException
  | OtherBaseException

text \<open>The attributes of \<open>self.ws\<close> that the loop reads back after an attempt.\<close>

record ws =
  ws_session_id :: "string option"
  ws_sequence :: "int option"

text \<open>
  The entries of \<open>params\<close> that the loop updates; \<open>http\<close>, \<open>dispatch\<close>, \<open>intents\<close> and
  \<open>presence\<close> are set once before the loop and never change.
\<close>

record params =
  resume :: bool
  session_id :: "string option"
  sequence :: "int option"

text \<open>
  How an attempt ends. \<open>ConnectRaised\<close>: \<open>WebsocketClient.connect\<close> raised, so \<open>self.ws\<close>
  was not assigned and keeps its earlier value. \<open>RunRaised w e\<close>: \<open>connect\<close> returned a
  handle, \<open>ws.run\<close> raised \<open>e\<close>, and \<open>w\<close> holds the handle's attributes at that moment.
  \<open>RunReturned w\<close>: \<open>ws.run\<close> returned. \<open>ready_after\<close> is \<open>self._ready\<close> when the handler
  runs and \<open>closed_after\<close> is \<open>self._closed\<close> at the next loop test: other tasks (the
  ready handler, \<open>stop\<close>) write the flags while the loop is suspended. \<open>registry_then\<close> is
  the state of the listener and wait tables when the handler runs: the handler
  dispatches the Disconnect event on it, and other tasks register listeners and waits
  while the loop is suspended.
\<close>

datatype attempt_end = ConnectRaised exn | RunRaised ws exn | RunReturned ws

record 'c attempt =
  how :: attempt_end
  ready_after :: bool
  closed_after :: bool
  registry_then :: "'c registry"

text \<open>
  The fields of the client that the loop reads and writes. Before the first successful
  \<open>connect\<close> the attribute \<open>self.ws\<close> is the \<open>MISSING\<close> sentinel, which is defined outside
  \<open>client.py\<close>; the model starts from the attributes that the caller gives for it.
\<close>

record client =
  cl_params :: params
  cl_ws :: ws
  cl_closed :: bool

datatype action = Connect params | Dispatch_Disconnect | Sleep nat

text \<open>
  What leaves \<open>_ws_connect\<close> as an exception: the \<open>SnakeException\<close> of a fatal close code,
  the exception of the attempt raised again (or never caught), and an exception that
  \<open>self.dispatch(events.Disconnect())\<close> raises inside a handler, where no clause catches it.
\<close>

datatype failure = SnakeException string | Reraised exn | Dispatch_raised dispatch_error

text \<open>
  What a pass does after its handler: \<open>Continue\<close> is the \<open>continue\<close> statement (back to the
  loop test, skipping the sleep), \<open>Fall_through\<close> reaches \<open>asyncio.sleep(5)\<close> at the end of
  the loop body, \<open>Return\<close> and \<open>Raise\<close> leave \<open>_ws_connect\<close>.
\<close>

datatype control = Continue params | Fall_through params | Return | Raise failure

definition resumed :: "ws \<Rightarrow> params" where
  "resumed w = \<lparr>resume = True, session_id = ws_session_id w, sequence = ws_sequence w\<rparr>"

definition fresh :: params where
  "fresh = \<lparr>resume = False, session_id = None, sequence = None\<rparr>"

text \<open>
  The rest of an \<open>except\<close> clause after its dispatch of Disconnect, for the clauses in the
  order of the source. \<open>w\<close> is \<open>self.ws\<close> and \<open>rdy\<close> is \<open>self._ready\<close> when the handler
  runs.
\<close>

fun after_disconnect :: "ws \<Rightarrow> bool \<Rightarrow> exn \<Rightarrow> control" where
  "after_disconnect w rdy (WebSocketRestart r) =
     (if r then Continue (resumed w) else Fall_through fresh)"
| "after_disconnect w rdy (WebSocketClosed code) =
     (if code = 1000 then (if rdy then Continue (resumed w) else Return)
      else if code = 4011 then
        Raise (SnakeException ''Your bot is too large, you must use shards'')
      else if code = 4013 then
        Raise (SnakeException ''Invalid Intents have been passed'')
      else if code = 4014 then
        Raise (SnakeException ''You have requested privileged intents that have not been enabled or approved. Check the developer dashboard'')
      else Raise (Reraised (WebSocketClosed code)))"
| "after_disconnect w rdy (OSError errno) =
     (if errno = Some 54 \<or> errno = Some 10054 then Continue (resumed w)
      else Fall_through fresh)"
| "after_disconnect w rdy GatewayNotFound = Fall_through fresh"
| "after_disconnect w rdy ClientError = Fall_through fresh"
| "after_disconnect w rdy TimeoutError = Fall_through fresh"
| "after_disconnect w rdy OtherException = Fall_through fresh"
| "after_disconnect w rdy OtherBaseException = Raise (Reraised OtherBaseException)"

text \<open>
  An \<open>except\<close> clause. Each of the three clauses first calls
  \<open>self.dispatch(events.Disconnect())\<close>; the model runs \<open>dispatch\<close> on the tables of that
  moment, with \<open>disconnect\<close> the Disconnect event (the \<open>events\<close> module is not part of
  \<open>client.py\<close>) and \<open>call\<close> the parameter of \<open>dispatch\<close>. An exception of that call (of the
  creation of a task, of a wait, of the pop loop) is raised inside the handler and
  leaves \<open>_ws_connect\<close>; otherwise the rest of the clause runs. An exception that no clause catches leaves at once, with no dispatch.
\<close>

definition handle ::
  "('c wait \<Rightarrow> event \<Rightarrow> bool option) \<Rightarrow> event \<Rightarrow> 'c registry \<Rightarrow> ws \<Rightarrow> bool \<Rightarrow> exn \<Rightarrow>
   action list \<times> control" where
  "handle call disconnect reg w rdy e =
     (if e = OtherBaseException then ([], Raise (Reraised OtherBaseException))
      else case snd (snd (dispatch call reg disconnect)) of
             Some err \<Rightarrow> ([Dispatch_Disconnect], Raise (Dispatch_raised err))
           | None \<Rightarrow> ([Dispatch_Disconnect], after_disconnect w rdy e))"

text \<open>The body of the loop up to the sleep: the attempt and its handler.\<close>

definition attempt_body ::
  "('c wait \<Rightarrow> event \<Rightarrow> bool option) \<Rightarrow> event \<Rightarrow> client \<Rightarrow> 'c attempt \<Rightarrow>
   ws \<times> action list \<times> control" where
  "attempt_body call disconnect c a =
     (case how a of
        ConnectRaised e \<Rightarrow>
          (cl_ws c, handle call disconnect (registry_then a) (cl_ws c) (ready_after a) e)
      | RunRaised w e \<Rightarrow> (w, handle call disconnect (registry_then a) w (ready_after a) e)
      | RunReturned w \<Rightarrow> (w, [], Fall_through (cl_params c)))"

datatype outcome = Loop_exited | Returned | Raised failure | Pending

text \<open>
  The loop. A pass tests \<open>self.is_closed\<close>, makes the attempt, runs the handler, and either
  leaves, continues at once, or sleeps 5 and continues. When the list of attempts is used
  up the last attempt is still running: \<open>Pending\<close>.
\<close>

fun ws_connect ::
  "('c wait \<Rightarrow> event \<Rightarrow> bool option) \<Rightarrow> event \<Rightarrow> client \<Rightarrow> 'c attempt list \<Rightarrow>
   action list \<times> outcome" where
  "ws_connect call disconnect c [] =
     (if cl_closed c then ([], Loop_exited) else ([Connect (cl_params c)], Pending))"
| "ws_connect call disconnect c (a # rest) =
     (if cl_closed c then ([], Loop_exited)
      else case attempt_body call disconnect c a of
             (w, acts, Continue p) \<Rightarrow>
               (let r = ws_connect call disconnect
                          \<lparr>cl_params = p, cl_ws = w, cl_closed = closed_after a\<rparr> rest
                in (Connect (cl_params c) # acts @ fst r, snd r))
           | (w, acts, Fall_through p) \<Rightarrow>
               (let r = ws_connect call disconnect
                          \<lparr>cl_params = p, cl_ws = w, cl_closed = closed_after a\<rparr> rest
                in (Connect (cl_params c) # acts @ Sleep 5 # fst r, snd r))
           | (w, acts, Return) \<Rightarrow> (Connect (cl_params c) # acts, Returned)
           | (w, acts, Raise f) \<Rightarrow> (Connect (cl_params c) # acts, Raised f))"

text \<open>The dispatch of Disconnect in the handler of an attempt returns.\<close>

definition disconnect_returns ::
  "('c wait \<Rightarrow> event \<Rightarrow> bool option) \<Rightarrow> event \<Rightarrow> 'c attempt \<Rightarrow> bool" where
  "disconnect_returns call disconnect a \<longleftrightarrow>
     snd (snd (dispatch call (registry_then a) disconnect)) = None"

text \<open>
  The two classes of failures after which the loop makes another attempt: those whose
  handler ends in \<open>continue\<close> with the parameters of a resume, and those whose handler
  sets the parameters of a fresh session and falls through to the sleep.
\<close>

definition resume_branch :: "exn \<Rightarrow> bool \<Rightarrow> bool" where
  "resume_branch e rdy \<longleftrightarrow>
     e = WebSocketRestart True \<or> (e = WebSocketClosed 1000 \<and> rdy) \<or>
     e = OSError (Some 54) \<or> e = OSError (Some 10054)"

definition fresh_branch :: "exn \<Rightarrow> bool" where
  "fresh_branch e \<longleftrightarrow>
     e = WebSocketRestart False \<or>
     (case e of OSError errno \<Rightarrow> errno \<noteq> Some 54 \<and> errno \<noteq> Some 10054 | _ \<Rightarrow> False) \<or>
     e = GatewayNotFound \<or> e = ClientError \<or> e = TimeoutError \<or> e = OtherException"

subsection \<open>Registries for the examples\<close>

text \<open>
  The Disconnect event of the examples, a registry with no listener and no wait, and one
  with two waits pending under the name of the event, as two calls
  \<open>wait_for("disconnect")\<close> leave them. In the examples each wait carries, in place of
  its predicate, the truth value of the predicate, and every call returns it.
\<close>

definition disconnect_event :: event where
  "disconnect_event = \<lparr>resolved_name = ''disconnect'', attrs_attrs = [''override_name'']\<rparr>"

definition idle_registry :: "bool registry" where
  "idle_registry =
     \<lparr>listeners = Map.empty, waits = Map.empty, futures = [], running_loop = True\<rparr>"

definition two_waiters :: "bool registry" where
  "two_waiters =
     \<lparr>listeners = Map.empty,
      waits = [''disconnect'' \<mapsto>
                 [\<lparr>wait_event = ''disconnect'', wait_checks = True, wait_future = 0\<rparr>,
                  \<lparr>wait_event = ''disconnect'', wait_checks = True, wait_future = 1\<rparr>]],
      futures = [Waiting, Waiting], running_loop = True\<rparr>"

definition truth_value :: "bool wait \<Rightarrow> event \<Rightarrow> bool option" where
  "truth_value w ev = Some (wait_checks w)"

definition first_client :: client where
  "first_client =
     \<lparr>cl_params = fresh, cl_ws = \<lparr>ws_session_id = None, ws_sequence = None\<rparr>,
      cl_closed = False\<rparr>"

definition session :: ws where
  "session = \<lparr>ws_session_id = Some ''s1'', ws_sequence = Some 42\<rparr>"

text \<open>An attempt whose run ends in \<open>e\<close> past readiness, with the tables \<open>reg\<close>.\<close>

definition run_ends :: "exn \<Rightarrow> bool registry \<Rightarrow> bool attempt" where
  "run_ends e reg =
     \<lparr>how = RunRaised session e, ready_after = True, closed_after = False,
      registry_then = reg\<rparr>"

section \<open>The cache readiness gate\<close>

text \<open>
  The wait loop of \<open>_on_websocket_ready\<close> (lines 458 to 472). The expected guilds are the
  set of the ids of the handshake payload, taken as converted by \<open>to_snowflake\<close>. Each pass waits for the guild signal with a
  bound; the model takes, per pass, whether the wait timed out or was signalled, and in
  the second case the ids held by \<open>self.cache.guild_cache\<close> at that moment.
\<close>

definition expected_guilds :: "int list \<Rightarrow> int set" where
  "expected_guilds ids = set ids"

datatype wake = Wait_timed_out | Guild_signal "int set"

datatype gate_exit = Timed_out | All_guilds_cached

text \<open>\<open>None\<close>: the list of wakes is used up and the loop is still waiting.\<close>

fun wait_guilds :: "int set \<Rightarrow> wake list \<Rightarrow> gate_exit option" where
  "wait_guilds expected [] = None"
| "wait_guilds expected (Wait_timed_out # rest) = Some Timed_out"
| "wait_guilds expected (Guild_signal guild_cache # rest) =
     (if card guild_cache = card expected then Some All_guilds_cached
      else wait_guilds expected rest)"


text \<open>The handler up to the end of its loop, from the guild ids of the payload.\<close>

definition on_websocket_ready :: "int list \<Rightarrow> wake list \<Rightarrow> gate_exit option" where
  "on_websocket_ready data_guilds wakes = wait_guilds (expected_guilds data_guilds) wakes"

section \<open>Resolving the options of an interaction\<close>

text \<open>
  The block of \<open>get_context\<close> that replaces the value of an option by a cached object
  (lines 891 to 910). A value of the payload is a JSON scalar; \<open>JNull\<close> is what
  \<open>option.get("value")\<close> gives for an option without a value.
\<close>

datatype json = JNull | JInt int | JStr string

text \<open>
  Modelled from the spec: the codes of the option kinds. The enumeration \<open>OptionTypes\<close> is
  not part of \<open>client.py\<close>; the spec lists the codes of the kinds that matter for routing.
\<close>

definition USER :: int where "USER = 6"
definition CHANNEL :: int where "CHANNEL = 7"
definition ROLE :: int where "ROLE = 8"
definition MENTIONABLE :: int where "MENTIONABLE = 9"

record opt =
  opt_type :: int
  opt_name :: string
  opt_value :: json

text \<open>
  The caches are dictionaries read with \<open>get\<close>. The member cache is read with the pair of
  a guild id and a user id in the \<open>USER\<close> branch and with a single id in the
  \<open>MENTIONABLE\<close> branch, so its keys are of both shapes. Cached objects are opaque; every
  cached object is truthy, so \<open>a or b\<close> is \<open>a\<close> whenever the lookup \<open>a\<close> finds one.
\<close>

datatype cache_key = Single int | Guild_user int int

datatype member = Member string
datatype user = User string
datatype channel = Channel string
datatype role = Role string

record caches =
  member_cache :: "cache_key \<rightharpoonup> member"
  user_cache :: "int \<rightharpoonup> user"
  channel_cache :: "int \<rightharpoonup> channel"
  role_cache :: "int \<rightharpoonup> role"

datatype resolved =
    Raw json
  | Of_member member
  | Of_user user
  | Of_channel channel
  | Of_role role

text \<open>
  \<open>to_snowflake\<close> is not part of \<open>client.py\<close>: it is a parameter, a conversion of a payload
  value to an id that may raise (\<open>Inl\<close>). \<open>guild_id\<close> is \<open>None\<close> when the payload has no
  \<open>guild_id\<close> key; the source then converts the default \<open>0\<close>. The arguments of a call are
  evaluated left to right, and the right operand of \<open>or\<close> only when the left one is falsy.
\<close>

definition resolve_option ::
  "(json \<Rightarrow> 'e + int) \<Rightarrow> caches \<Rightarrow> json option \<Rightarrow> opt \<Rightarrow> 'e + resolved" where
  "resolve_option to_snowflake cache guild_id option =
     (let v = opt_value option in
      if opt_type option = USER then
        (case to_snowflake (case guild_id of None \<Rightarrow> JInt 0 | Some g \<Rightarrow> g) of
           Inl e \<Rightarrow> Inl e
         | Inr g \<Rightarrow>
             (case to_snowflake v of
                Inl e \<Rightarrow> Inl e
              | Inr u \<Rightarrow>
                  (case member_cache cache (Guild_user g u) of
                     Some m \<Rightarrow> Inr (Of_member m)
                   | None \<Rightarrow>
                       (case to_snowflake v of
                          Inl e \<Rightarrow> Inl e
                        | Inr u' \<Rightarrow>
                            (case user_cache cache u' of
                               Some x \<Rightarrow> Inr (Of_user x)
                             | None \<Rightarrow> Inr (Raw v))))))
      else if opt_type option = CHANNEL then
        (case to_snowflake v of
           Inl e \<Rightarrow> Inl e
         | Inr c \<Rightarrow>
             (case channel_cache cache c of
                Some x \<Rightarrow> Inr (Of_channel x)
              | None \<Rightarrow> Inr (Raw v)))
      else if opt_type option = ROLE then
        (case to_snowflake v of
           Inl e \<Rightarrow> Inl e
         | Inr c \<Rightarrow>
             (case role_cache cache c of
                Some x \<Rightarrow> Inr (Of_role x)
              | None \<Rightarrow> Inr (Raw v)))
      else if opt_type option = MENTIONABLE then
        (case to_snowflake v of
           Inl e \<Rightarrow> Inl e
         | Inr snow \<Rightarrow>
             (case member_cache cache (Single snow) of
                Some m \<Rightarrow> Inr (Of_member m)
              | None \<Rightarrow>
                  (case user_cache cache snow of
                     Some x \<Rightarrow> Inr (Of_user x)
                   | None \<Rightarrow>
                       (case role_cache cache snow of
                          Some x \<Rightarrow> Inr (Of_role x)
                        | None \<Rightarrow> Inr (Raw v)))))
      else Inr (Raw v))"

section \<open>Message commands\<close>

text \<open>
  \<open>_dispatch_msg_commands\<close> (lines 986 to 1014). The model returns the trace of what the
  listener does for one message: the call of the prefix resolver, the search for a
  mention, the building of the context, the call of the command and of the two hooks.
\<close>

record message =
  author_id :: int
  author_bot :: bool
  content :: string

record message_context =
  invoked_name :: string
  ctx_prefix :: string
  ctx_args :: "string list"

text \<open>A command: its \<open>enabled\<close> flag, and the exception its call raises, if any.\<close>

record message_command =
  enabled :: bool
  call_raises :: "message_context \<Rightarrow> string option"

text \<open>
  What the listener reads from the client and from modules outside \<open>client.py\<close>: the
  prefix resolver \<open>get_prefix\<close>, the constant \<open>MENTION_PREFIX\<close>, the search of the compiled
  pattern \<open>_mention_reg\<close> (the matched text, if any), \<open>get_first_word\<close>, the table
  \<open>commands\<close>, and \<open>get_args\<close> applied to the \<open>content_parameters\<close> of the context.
\<close>

record msg_env =
  get_prefix :: "message \<Rightarrow> string"
  MENTION_PREFIX :: string
  mention_reg_search :: "string \<Rightarrow> string option"
  get_first_word :: "string \<Rightarrow> string"
  commands :: "string \<rightharpoonup> message_command"
  get_args :: "message \<Rightarrow> string \<Rightarrow> string \<Rightarrow> string list"

datatype msg_action =
    Get_prefix message
  | Mention_search string
  | Get_context message
  | Call_command string message_context
  | On_command_error string string
  | On_command message_context

definition startswith :: "string \<Rightarrow> string \<Rightarrow> bool" where
  "startswith s p \<longleftrightarrow> take (length p) s = p"

definition removeprefix :: "string \<Rightarrow> string \<Rightarrow> string" where
  "removeprefix s p = (if startswith s p then drop (length p) s else s)"

definition invoke_command ::
  "msg_env \<Rightarrow> message \<Rightarrow> string \<Rightarrow> msg_action list" where
  "invoke_command env msg prefix =
     (if startswith (content msg) prefix then
        (let name = get_first_word env (removeprefix (content msg) prefix) in
         case commands env name of
           None \<Rightarrow> []
         | Some command \<Rightarrow>
             if enabled command then
               (let ctx = \<lparr>invoked_name = name, ctx_prefix = prefix,
                           ctx_args = get_args env msg prefix name\<rparr>
                in Get_context msg # Call_command name ctx #
                   (case call_raises command ctx of
                      None \<Rightarrow> []
                    | Some e \<Rightarrow> [On_command_error (''cmd `'' @ name @ ''`'') e]) @
                   [On_command ctx])
             else [])
      else [])"

definition dispatch_msg_commands :: "msg_env \<Rightarrow> message \<Rightarrow> msg_action list" where
  "dispatch_msg_commands env msg =
     (if \<not> author_bot msg then
        (let prefix = get_prefix env msg in
         if prefix = MENTION_PREFIX env then
           (case mention_reg_search env (content msg) of
              Some mention \<Rightarrow>
                Get_prefix msg # Mention_search (content msg) # invoke_command env msg mention
            | None \<Rightarrow> [Get_prefix msg, Mention_search (content msg)])
         else Get_prefix msg # invoke_command env msg prefix)
      else [])"

section \<open>Command reconciliation\<close>

text \<open>
  \<open>_cache_interactions\<close> and \<open>synchronise_interactions\<close> (lines 694 to 844).

  Modelled from the spec: the constant \<open>GLOBAL_SCOPE\<close> is not part of \<open>client.py\<close>. The spec
  has a scope be either a global marker or a specific guild id, so the marker is a
  constructor of its own and no guild id equals it. Guild ids are taken as converted by
  \<open>to_snowflake\<close>.
\<close>

datatype scope = GLOBAL_SCOPE | Guild int

text \<open>
  The exceptions of a pass: the two kinds of failure of a REST call that the source tells
  apart (\<open>Forbidden\<close>, anything else), the \<open>StopIteration\<close> of a \<open>next\<close> without default, the
  \<open>KeyError\<close> of a subscript, and the error the pass raises for a forbidden scope. None
  but \<open>Forbidden\<close> is caught by the pass, whatever the coroutine makes of it on the way out.
\<close>

datatype error =
    Forbidden
  | HTTPException
  | StopIteration
  | KeyError
  | InteractionMissingAccess scope

text \<open>
  A permission overwrite of a command: the guild it targets and its serialised form
  (\<open>to_dict\<close>, kept opaque).
\<close>

record permission =
  perm_guild_id :: scope
  perm_to_dict :: string

text \<open>
  An \<open>InteractionCommand\<close> object, as far as the pass reads and writes it. \<open>cmd_id\<close> is
  \<open>None\<close> until an id has been cached.
\<close>

record command =
  cmd_name :: string
  cmd_id :: "string option"
  cmd_permissions :: "permission list"

text \<open>
  A command in its serialised form, an element of the lists that
  \<open>application_commands_to_dict\<close> returns: its name and the rest, kept opaque.
\<close>

record json_cmd =
  json_name :: string
  json_rest :: string

text \<open>
  A command as the remote registry returns it. \<open>r_guild_id\<close> and \<open>r_options\<close> are \<open>None\<close> when
  the dictionary has no such key. Of an option the pass reads the type, the name and
  the names of the options nested in it.
\<close>

record sub_option =
  sc_type :: int
  sc_name :: string
  sc_options :: "string list option"

record remote_cmd =
  r_id :: string
  r_name :: string
  r_guild_id :: "scope option"
  r_options :: "sub_option list option"

record perm_entry =
  pe_id :: "string option"
  pe_permissions :: "string list"

text \<open>The calls of the REST client; the last three write to the remote registry.\<close>

datatype http_call =
    Get scope
  | Post scope "json_cmd list"
  | Edit_permissions scope "perm_entry list"
  | Delete scope string

fun is_write :: "http_call \<Rightarrow> bool" where
  "is_write (Get s) = False"
| "is_write (Post s cmds) = True"
| "is_write (Edit_permissions s es) = True"
| "is_write (Delete s i) = True"

fun is_command_write :: "http_call \<Rightarrow> bool" where
  "is_command_write (Post s cmds) = True"
| "is_command_write (Delete s i) = True"
| "is_command_write c = False"

text \<open>
  Modelled from the spec: the codes of the two option kinds that name sub-commands. The
  enumeration \<open>OptionTypes\<close> is not part of \<open>client.py\<close>.
\<close>

definition SUB_COMMAND :: int where "SUB_COMMAND = 1"
definition SUB_COMMAND_GROUP :: int where "SUB_COMMAND_GROUP = 2"

text \<open>
  What a pass takes from outside \<open>client.py\<close>: the answers of the REST client (\<open>Inl\<close> and
  \<open>Some\<close> are the exception a call raises), the result \<open>cmds_json\<close> of
  \<open>application_commands_to_dict(self.interactions)\<close>, the comparison \<open>sync_needed\<close>, the
  switch \<open>del_unused_app_cmd\<close>, the ids of the cached guilds and the guild ids of the
  bot's user. The serialised commands do not depend on the cached ids, the only part of
  a command that a pass changes, so \<open>cmds_json\<close> is the same before and after a pass.
\<close>

record sync_env =
  get_interaction_element :: "scope \<Rightarrow> error + remote_cmd list"
  post_interaction_element :: "json_cmd list \<Rightarrow> scope \<Rightarrow> error + remote_cmd list"
  batch_edit_application_command_permissions :: "scope \<Rightarrow> perm_entry list \<Rightarrow> error option"
  delete_interaction_element :: "scope \<Rightarrow> string \<Rightarrow> error option"
  cmds_json :: "scope \<rightharpoonup> json_cmd list"
  sync_needed :: "json_cmd \<Rightarrow> remote_cmd option \<Rightarrow> bool"
  del_unused_app_cmd :: bool
  guild_cache_ids :: "int list"
  user_guild_ids :: "int list"

text \<open>
  The tables of the client. A command registered for several scopes is one object held
  by the dictionary of each of them, so the objects live in a store (\<open>objects\<close>, an object
  being known by its position) and \<open>interactions\<close> holds positions. Both dictionaries of
  \<open>interactions\<close> are association lists in the order of insertion, the order in which the
  source iterates over them.
\<close>

record sync_state =
  objects :: "command list"
  interactions :: "(scope \<times> (string \<times> nat) list) list"
  interaction_scopes :: "string \<rightharpoonup> scope"

definition local_refs :: "sync_state \<Rightarrow> scope \<Rightarrow> nat list" where
  "local_refs st s = (case map_of (interactions st) s of None \<Rightarrow> [] | Some tbl \<Rightarrow> map snd tbl)"

text \<open>\<open>self.interactions.get(scope, {}).values()\<close>.\<close>

definition local_cmds :: "sync_state \<Rightarrow> scope \<Rightarrow> command list" where
  "local_cmds st s = map (\<lambda>ref. objects st ! ref) (local_refs st s)"

definition set_cmd_id :: "sync_state \<Rightarrow> nat \<Rightarrow> string \<Rightarrow> sync_state" where
  "set_cmd_id st ref i = st\<lparr>objects := (objects st)[ref := (objects st ! ref)\<lparr>cmd_id := Some i\<rparr>]\<rparr>"

subsection \<open>\<open>_cache_interactions\<close>\<close>

text \<open>
  The body of the inner loop of the first part: the remote commands are put into a
  dictionary by name (of two with one name the later one stays), and a local command
  whose name is in it gets the remote id.
\<close>

definition cache_local :: "scope \<Rightarrow> remote_cmd list \<Rightarrow> sync_state \<Rightarrow> nat \<Rightarrow> sync_state" where
  "cache_local s remote_cmds st ref =
     (case find (\<lambda>d. r_name d = cmd_name (objects st ! ref)) (rev remote_cmds) of
        None \<Rightarrow> st
      | Some cmd_data \<Rightarrow>
          set_cmd_id (st\<lparr>interaction_scopes := (interaction_scopes st)(r_id cmd_data \<mapsto> s)\<rparr>)
            ref (r_id cmd_data))"

text \<open>
  The first part: every scope with registered commands. A forbidden answer is raised as
  \<open>InteractionMissingAccess\<close>; any other exception of the call passes through.
\<close>

fun cache_registered ::
  "sync_env \<Rightarrow> sync_state \<Rightarrow> scope list \<Rightarrow> http_call list \<times> (error + sync_state)" where
  "cache_registered env st [] = ([], Inr st)"
| "cache_registered env st (s # rest) =
     (case get_interaction_element env s of
        Inl Forbidden \<Rightarrow> ([Get s], Inl (InteractionMissingAccess s))
      | Inl e \<Rightarrow> ([Get s], Inl e)
      | Inr remote_cmds \<Rightarrow>
          (let r = cache_registered env
                     (foldl (cache_local s remote_cmds) st (local_refs st s)) rest
           in (Get s # fst r, snd r)))"

text \<open>
  The second part: the scopes of the bot with no registered command. A forbidden answer
  skips the scope.
\<close>

fun cache_remaining ::
  "sync_env \<Rightarrow> sync_state \<Rightarrow> scope list \<Rightarrow> http_call list \<times> (error + sync_state)" where
  "cache_remaining env st [] = ([], Inr st)"
| "cache_remaining env st (s # rest) =
     (case get_interaction_element env s of
        Inl Forbidden \<Rightarrow> (let r = cache_remaining env st rest in (Get s # fst r, snd r))
      | Inl e \<Rightarrow> ([Get s], Inl e)
      | Inr remote_cmds \<Rightarrow>
          (let r = cache_remaining env
                     (foldl (\<lambda>st cmd_data.
                               st\<lparr>interaction_scopes := (interaction_scopes st)(r_id cmd_data \<mapsto> s)\<rparr>)
                            st remote_cmds) rest
           in (Get s # fst r, snd r)))"

text \<open>
  \<open>bot_scopes\<close> is a set; the model iterates over it in the order of the cached guilds,
  the global scope last.
\<close>

definition bot_scopes :: "sync_env \<Rightarrow> sync_state \<Rightarrow> scope list" where
  "bot_scopes env st =
     filter (\<lambda>s. s \<notin> set (map fst (interactions st)))
       (remdups (map Guild (guild_cache_ids env) @ [GLOBAL_SCOPE]))"

definition cache_interactions ::
  "sync_env \<Rightarrow> sync_state \<Rightarrow> http_call list \<times> (error + sync_state)" where
  "cache_interactions env st =
     (case cache_registered env st (map fst (interactions st)) of
        (log, Inl e) \<Rightarrow> (log, Inl e)
      | (log, Inr st1) \<Rightarrow>
          (let r = cache_remaining env st1 (bot_scopes env st) in (log @ fst r, snd r)))"

subsection \<open>\<open>synchronise_interactions\<close>\<close>

text \<open>
  The first loop over the local commands of a scope: the remote command with the id of
  the local one (or \<open>None\<close>), the serialised form with its name, and the three
  accumulators \<open>need_to_sync\<close>, \<open>cmds_to_sync\<close> and \<open>found\<close>.
\<close>

fun scan_local ::
  "sync_env \<Rightarrow> scope \<Rightarrow> remote_cmd list \<Rightarrow> command list \<Rightarrow>
   bool \<times> json_cmd list \<times> remote_cmd option list \<Rightarrow>
   error + bool \<times> json_cmd list \<times> remote_cmd option list" where
  "scan_local env s resp [] acc = Inr acc"
| "scan_local env s resp (local_cmd # rest) (need_to_sync, cmds_to_sync, found) =
     (let remote_cmd = find (\<lambda>v. Some (r_id v) = cmd_id local_cmd) resp in
      case cmds_json env s of
        None \<Rightarrow> Inl KeyError
      | Some js \<Rightarrow>
          (case find (\<lambda>c. json_name c = cmd_name local_cmd) js of
             None \<Rightarrow> Inl StopIteration
           | Some local_json \<Rightarrow>
               scan_local env s resp rest
                 (need_to_sync \<or> sync_needed env local_json remote_cmd,
                  if local_json \<in> set cmds_to_sync then cmds_to_sync
                  else cmds_to_sync @ [local_json],
                  if remote_cmd \<in> set found then found else found @ [remote_cmd])))"

text \<open>
  Caching the ids of the answer to the bulk post. A command of the answer whose name is
  no key of the scope's dictionary is searched for sub-commands: \<open>parent sub\<close>, and
  \<open>parent group sub\<close> for a group.
\<close>

definition set_if_registered ::
  "(string \<times> nat) list \<Rightarrow> string \<Rightarrow> string \<Rightarrow> sync_state \<Rightarrow> sync_state" where
  "set_if_registered tbl key i st =
     (case map_of tbl key of None \<Rightarrow> st | Some ref \<Rightarrow> set_cmd_id st ref i)"

fun cache_subs ::
  "(string \<times> nat) list \<Rightarrow> remote_cmd \<Rightarrow> sync_state \<Rightarrow> sub_option list \<Rightarrow> error + sync_state" where
  "cache_subs tbl cmd_data st [] = Inr st"
| "cache_subs tbl cmd_data st (sc # rest) =
     (if sc_type sc = SUB_COMMAND then
        cache_subs tbl cmd_data
          (set_if_registered tbl (r_name cmd_data @ '' '' @ sc_name sc) (r_id cmd_data) st) rest
      else if sc_type sc = SUB_COMMAND_GROUP then
        (case sc_options sc of
           None \<Rightarrow> Inl KeyError
         | Some names \<Rightarrow>
             cache_subs tbl cmd_data
               (foldl (\<lambda>st n. set_if_registered tbl
                                 (r_name cmd_data @ '' '' @ sc_name sc @ '' '' @ n)
                                 (r_id cmd_data) st)
                      st names) rest)
      else cache_subs tbl cmd_data st rest)"

fun cache_response ::
  "scope \<Rightarrow> sync_state \<Rightarrow> remote_cmd list \<Rightarrow> error + sync_state" where
  "cache_response s st [] = Inr st"
| "cache_response s st (cmd_data # rest) =
     (let st1 = st\<lparr>interaction_scopes := (interaction_scopes st)(r_id cmd_data \<mapsto> s)\<rparr> in
      case map_of (interactions st1) s of
        None \<Rightarrow> Inl KeyError
      | Some tbl \<Rightarrow>
          (case map_of tbl (r_name cmd_data) of
             Some ref \<Rightarrow> cache_response s (set_cmd_id st1 ref (r_id cmd_data)) rest
           | None \<Rightarrow>
               (case r_options cmd_data of
                  None \<Rightarrow> Inl KeyError
                | Some scs \<Rightarrow>
                    (case cache_subs tbl cmd_data st1 scs of
                       Inl e \<Rightarrow> Inl e
                     | Inr st2 \<Rightarrow> cache_response s st2 rest))))"

text \<open>
  \<open>guild_perms\<close>: a dictionary from the targeted guild to the entries collected for it,
  in the order of insertion. It is created once, before the loop over the scopes.
\<close>

type_synonym guild_perms = "(scope \<times> perm_entry list) list"

definition add_perm :: "guild_perms \<Rightarrow> scope \<Rightarrow> perm_entry \<Rightarrow> guild_perms" where
  "add_perm gp g e =
     (if g \<in> set (map fst gp) then map (\<lambda>(k, es). if k = g then (k, es @ [e]) else (k, es)) gp
      else gp @ [(g, [e])])"

definition collect_cmd :: "guild_perms \<Rightarrow> command \<Rightarrow> guild_perms" where
  "collect_cmd gp local_cmd =
     (if cmd_permissions local_cmd = [] then gp
      else foldl (\<lambda>gp perm. add_perm gp (perm_guild_id perm)
                    \<lparr>pe_id = cmd_id local_cmd,
                     pe_permissions = map perm_to_dict (cmd_permissions local_cmd)\<rparr>)
                 gp (cmd_permissions local_cmd))"

definition collect_perms :: "guild_perms \<Rightarrow> command list \<Rightarrow> guild_perms" where
  "collect_perms gp cmds = foldl collect_cmd gp cmds"

fun push_perms :: "sync_env \<Rightarrow> guild_perms \<Rightarrow> http_call list \<times> error option" where
  "push_perms env [] = ([], None)"
| "push_perms env ((perm_scope, es) # rest) =
     (case batch_edit_application_command_permissions env perm_scope es of
        Some e \<Rightarrow> ([Edit_permissions perm_scope es], Some e)
      | None \<Rightarrow>
          (let r = push_perms env rest in (Edit_permissions perm_scope es # fst r, snd r)))"

fun delete_unused :: "sync_env \<Rightarrow> remote_cmd list \<Rightarrow> http_call list \<times> error option" where
  "delete_unused env [] = ([], None)"
| "delete_unused env (cmd # rest) =
     (let s = (case r_guild_id cmd of None \<Rightarrow> GLOBAL_SCOPE | Some g \<Rightarrow> g) in
      case delete_interaction_element env s (r_id cmd) of
        Some e \<Rightarrow> ([Delete s (r_id cmd)], Some e)
      | None \<Rightarrow> (let r = delete_unused env rest in (Delete s (r_id cmd) # fst r, snd r)))"

text \<open>The bulk post of a scope that needs it, and the caching of the answer.\<close>

definition post_scope ::
  "sync_env \<Rightarrow> sync_state \<Rightarrow> scope \<Rightarrow> bool \<Rightarrow> json_cmd list \<Rightarrow>
   http_call list \<times> (error + sync_state)" where
  "post_scope env st s need_to_sync cmds_to_sync =
     (if need_to_sync then
        (case post_interaction_element env cmds_to_sync s of
           Inl e \<Rightarrow> ([Post s cmds_to_sync], Inl e)
         | Inr cmd_sync_resp \<Rightarrow> ([Post s cmds_to_sync], cache_response s st cmd_sync_resp))
      else ([], Inr st))"

text \<open>
  The body of the \<open>try\<close> for one scope: the calls it makes, and the exception it raises or
  the tables and \<open>guild_perms\<close> it leaves. When it raises, the calls made so far are in the
  list; the half-updated tables are not returned.
\<close>

definition sync_scope ::
  "sync_env \<Rightarrow> sync_state \<times> guild_perms \<Rightarrow> scope \<Rightarrow>
   http_call list \<times> (error + sync_state \<times> guild_perms)" where
  "sync_scope env sg cmd_scope =
     (case get_interaction_element env cmd_scope of
        Inl e \<Rightarrow> ([Get cmd_scope], Inl e)
      | Inr cmds_resp_data \<Rightarrow>
          (case scan_local env cmd_scope cmds_resp_data (local_cmds (fst sg) cmd_scope)
                  (False, [], []) of
             Inl e \<Rightarrow> ([Get cmd_scope], Inl e)
           | Inr (need_to_sync, cmds_to_sync, found) \<Rightarrow>
               (case post_scope env (fst sg) cmd_scope need_to_sync cmds_to_sync of
                  (posted, Inl e) \<Rightarrow> (Get cmd_scope # posted, Inl e)
                | (posted, Inr st1) \<Rightarrow>
                    (let gp1 = collect_perms (snd sg) (local_cmds st1 cmd_scope) in
                     case push_perms env gp1 of
                       (pushed, Some e) \<Rightarrow> (Get cmd_scope # posted @ pushed, Inl e)
                     | (pushed, None) \<Rightarrow>
                         (if del_unused_app_cmd env then
                            (case delete_unused env
                                    (filter (\<lambda>c. Some c \<notin> set found) cmds_resp_data) of
                               (deleted, Some e) \<Rightarrow>
                                 (Get cmd_scope # posted @ pushed @ deleted, Inl e)
                             | (deleted, None) \<Rightarrow>
                                 (Get cmd_scope # posted @ pushed @ deleted, Inr (st1, gp1)))
                          else (Get cmd_scope # posted @ pushed, Inr (st1, gp1)))))))"

text \<open>
  The loop over the scopes. \<open>Forbidden\<close> from the body is raised as
  \<open>InteractionMissingAccess\<close> of the scope at hand, which leaves the loop and the pass;
  any other exception leaves them as it is.
\<close>

fun sync_scopes ::
  "sync_env \<Rightarrow> sync_state \<times> guild_perms \<Rightarrow> scope list \<Rightarrow>
   http_call list \<times> (error + sync_state \<times> guild_perms)" where
  "sync_scopes env sg [] = ([], Inr sg)"
| "sync_scopes env sg (cmd_scope # rest) =
     (case sync_scope env sg cmd_scope of
        (log, Inl Forbidden) \<Rightarrow> (log, Inl (InteractionMissingAccess cmd_scope))
      | (log, Inl e) \<Rightarrow> (log, Inl e)
      | (log, Inr sg1) \<Rightarrow> (let r = sync_scopes env sg1 rest in (log @ fst r, snd r)))"

definition cmd_scopes :: "sync_env \<Rightarrow> scope list" where
  "cmd_scopes env = map Guild (user_guild_ids env) @ [GLOBAL_SCOPE]"

definition synchronise_interactions ::
  "sync_env \<Rightarrow> sync_state \<Rightarrow> http_call list \<times> (error + sync_state)" where
  "synchronise_interactions env st =
     (case cache_interactions env st of
        (cached, Inl e) \<Rightarrow> (cached, Inl e)
      | (cached, Inr st0) \<Rightarrow>
          (case sync_scopes env (st0, []) (cmd_scopes env) of
             (log, Inl e) \<Rightarrow> (cached @ log, Inl e)
           | (log, Inr sg) \<Rightarrow> (cached @ log, Inr (fst sg))))"

text \<open>
  A caching step changes nothing of the tables but cached ids and entries of
  \<open>_interaction_scopes\<close>. \<open>assigned ids scopes st\<close> is \<open>st\<close> with the id \<open>ids ref\<close> on every
  object \<open>ref\<close> for which \<open>ids\<close> has one, and with \<open>scopes\<close> laid over \<open>_interaction_scopes\<close>.
\<close>

definition assigned ::
  "(nat \<rightharpoonup> string) \<Rightarrow> (string \<rightharpoonup> scope) \<Rightarrow> sync_state \<Rightarrow> sync_state" where
  "assigned ids scopes st =
     st\<lparr>objects :=
          map (\<lambda>ref. case ids ref of
                        None \<Rightarrow> objects st ! ref
                      | Some i \<Rightarrow> (objects st ! ref)\<lparr>cmd_id := Some i\<rparr>)
              [0..<length (objects st)],
        interaction_scopes := interaction_scopes st ++ scopes\<rparr>"

text \<open>
  No local command of the scopes of a run declares a permission overwrite.
\<close>

definition declares_no_permissions :: "sync_env \<Rightarrow> sync_state \<Rightarrow> bool" where
  "declares_no_permissions env st =
     list_all (\<lambda>s. list_all (\<lambda>c. cmd_permissions c = []) (local_cmds st s)) (cmd_scopes env)"

subsection \<open>A small registry, for the examples\<close>

text \<open>
  One global command \<open>ping\<close> with a permission overwrite for guild 10. The remote registry
  holds \<open>ping\<close> under the id 1 in the global scope and refuses the bot in every guild;
  \<open>sync_needed\<close> reports a difference only for a command without remote counterpart.
\<close>

definition ping_remote :: remote_cmd where
  "ping_remote = \<lparr>r_id = ''1'', r_name = ''ping'', r_guild_id = None, r_options = None\<rparr>"

definition ping_json :: json_cmd where
  "ping_json = \<lparr>json_name = ''ping'', json_rest = ''{}''\<rparr>"

definition ping_env :: sync_env where
  "ping_env =
     \<lparr>get_interaction_element =
        (\<lambda>s. if s = GLOBAL_SCOPE then Inr [ping_remote] else Inl Forbidden),
      post_interaction_element = (\<lambda>cmds s. Inr [ping_remote]),
      batch_edit_application_command_permissions = (\<lambda>s es. None),
      delete_interaction_element = (\<lambda>s i. None),
      cmds_json = [GLOBAL_SCOPE \<mapsto> [ping_json]],
      sync_needed = (\<lambda>local_json remote_cmd. remote_cmd = None),
      del_unused_app_cmd = True,
      guild_cache_ids = [],
      user_guild_ids = []\<rparr>"

definition ping_command :: command where
  "ping_command =
     \<lparr>cmd_name = ''ping'', cmd_id = None,
      cmd_permissions = [\<lparr>perm_guild_id = Guild 10, perm_to_dict = ''allow''\<rparr>]\<rparr>"

definition ping_state :: sync_state where
  "ping_state =
     \<lparr>objects = [ping_command], interactions = [(GLOBAL_SCOPE, [(''ping'', 0)])],
      interaction_scopes = Map.empty\<rparr>"

text \<open>
  The same bot as a member of guild 1, with an empty global registry: \<open>ping\<close> is yet to be
  posted.
\<close>

definition guild_env :: sync_env where
  "guild_env =
     ping_env\<lparr>get_interaction_element :=
                 (\<lambda>s. if s = GLOBAL_SCOPE then Inr [] else Inl Forbidden),
               guild_cache_ids := [1], user_guild_ids := [1]\<rparr>"

text \<open>
  \<open>ping\<close> without a permission overwrite: before any pass, and with the remote id cached.
\<close>

definition plain_state :: sync_state where
  "plain_state =
     \<lparr>objects = [\<lparr>cmd_name = ''ping'', cmd_id = None, cmd_permissions = []\<rparr>],
      interactions = [(GLOBAL_SCOPE, [(''ping'', 0)])],
      interaction_scopes = Map.empty\<rparr>"

definition plain_state_cached :: sync_state where
  "plain_state_cached =
     \<lparr>objects = [\<lparr>cmd_name = ''ping'', cmd_id = Some ''1'', cmd_permissions = []\<rparr>],
      interactions = [(GLOBAL_SCOPE, [(''ping'', 0)])],
      interaction_scopes = [''1'' \<mapsto> GLOBAL_SCOPE]\<rparr>"

text \<open>
  \<open>ping\<close> as a context menu, without a permission overwrite. The docstring of
  \<open>synchronise_interactions\<close> has it that the remote registry does not return what is
  needed to compare a context menu, so that \<open>sync_needed\<close> reports a difference for it on
  every run.
\<close>

definition menu_env :: sync_env where
  "menu_env = ping_env\<lparr>sync_needed := (\<lambda>local_json remote_cmd. True)\<rparr>"

section \<open>Properties of dispatch and of the wait registry\<close>

text \<open>
  Claim C2 does not hold of \<open>dispatch\<close>. With three pending waits of which the first two
  are satisfied, the positions 0 and 1 are recorded; popping position 0 moves the second
  wait to position 0 and the third to position 1, so popping position 1 removes the
  third, unsatisfied wait and leaves the second, satisfied one in the table. (Each wait
  carries, in place of its predicate, the truth value of the predicate on the event.)
\<close>

theorem dispatch_pops_shifted_positions:
  "(let a = \<lparr>wait_event = ''x'', wait_checks = True, wait_future = 0\<rparr>;
        b = \<lparr>wait_event = ''x'', wait_checks = True, wait_future = 1\<rparr>;
        c = \<lparr>wait_event = ''x'', wait_checks = False, wait_future = 2\<rparr>;
        r = \<lparr>listeners = Map.empty, waits = [''x'' \<mapsto> [a, b, c]],
             futures = [Waiting, Waiting, Waiting], running_loop = True\<rparr>;
        (r', ts, err) = dispatch (\<lambda>w ev. Some (wait_checks w)) r
                          \<lparr>resolved_name = ''x'', attrs_attrs = [''override_name'', ''data'']\<rparr>
    in waits r' ''x'' = Some [b] \<and> err = None)"
  by (simp add: dispatch_def index_to_remove_def enumerate_eq_zip upt_rec)

text \<open>
  With two pending waits, both satisfied, the second pop is out of range: \<open>dispatch\<close>
  raises \<open>IndexError\<close> and the second wait stays.
\<close>

lemma dispatch_pop_out_of_range:
  "(let a = \<lparr>wait_event = ''x'', wait_checks = True, wait_future = 0\<rparr>;
        b = \<lparr>wait_event = ''x'', wait_checks = True, wait_future = 1\<rparr>;
        r = \<lparr>listeners = Map.empty, waits = [''x'' \<mapsto> [a, b]],
             futures = [Waiting, Waiting], running_loop = True\<rparr>;
        (r', ts, err) = dispatch (\<lambda>w ev. Some (wait_checks w)) r
                          \<lparr>resolved_name = ''x'', attrs_attrs = [''override_name'', ''data'']\<rparr>
    in waits r' ''x'' = Some [b] \<and> err = Some IndexError)"
  by (simp add: dispatch_def index_to_remove_def enumerate_eq_zip upt_rec)

text \<open>
  With a single satisfied wait the positions do not shift, and \<open>dispatch\<close> removes that
  wait and no other.
\<close>

lemma index_to_remove_none:
  "\<forall>w \<in> set ws. \<not> result w \<Longrightarrow> filter (\<lambda>(i, w). result w) (enumerate n ws) = []"
  by (auto simp: filter_empty_conv in_set_enumerate_eq)

lemma pop_single_match:
  assumes "\<forall>w \<in> set pre. \<not> result w" and "result w" and "\<forall>w \<in> set post. \<not> result w"
  shows "pop_all (index_to_remove result (pre @ w # post)) (pre @ w # post) = (pre @ post, None)"
proof -
  have "index_to_remove result (pre @ w # post) = [length pre]"
    using assms by (simp add: index_to_remove_def enumerate_append_eq index_to_remove_none)
  then show ?thesis by simp
qed

lemma pop_no_match:
  "\<forall>w \<in> set ws. \<not> result w \<Longrightarrow> pop_all (index_to_remove result ws) ws = (ws, None)"
  by (simp add: index_to_remove_def index_to_remove_none)

text \<open>
  So a dispatch that satisfies at most one of the pending waits removes the satisfied
  wait, keeps every other, and raises nothing.
\<close>

lemma pop_at_most_one:
  assumes "length (filter result ws) \<le> 1"
  shows "pop_all (index_to_remove result ws) ws = (filter (\<lambda>w. \<not> result w) ws, None)"
proof (cases "\<forall>w \<in> set ws. \<not> result w")
  case True
  then have "filter (\<lambda>w. \<not> result w) ws = ws" by (simp add: filter_id_conv)
  then show ?thesis using pop_no_match [OF True] by simp
next
  case False
  then obtain pre w post where
    ws: "ws = pre @ w # post" and w: "result w" and pre: "\<forall>x \<in> set pre. \<not> result x"
    by (metis split_list_first_prop)
  have "length (filter result post) = 0"
    using assms ws w pre by simp
  then have post: "\<forall>x \<in> set post. \<not> result x"
    by (simp add: filter_empty_conv)
  have "filter (\<lambda>w. \<not> result w) ws = pre @ post"
    using ws w pre post by (simp add: filter_id_conv)
  then show ?thesis using pop_single_match [OF pre w post] ws by simp
qed

lemma dispatch_at_most_one:
  assumes "running_loop r"
    and "\<forall>w \<in> set (table r (resolved_name ev)). call w ev \<noteq> None"
    and "length (filter (\<lambda>w. call w ev = Some True) (table r (resolved_name ev))) \<le> 1"
  shows "snd (snd (dispatch call r ev)) = None"
    and "table (fst (dispatch call r ev)) (resolved_name ev) =
           filter (\<lambda>w. call w ev \<noteq> Some True) (table r (resolved_name ev))"
    and "n \<noteq> resolved_name ev \<Longrightarrow> waits (fst (dispatch call r ev)) n = waits r n"
    and "futures (fst (dispatch call r ev)) = futures r"
  using assms
        pop_at_most_one [of "\<lambda>w. call w ev = Some True" "table r (resolved_name ev)"]
  by (auto simp: dispatch_def table_def Let_def list_ex_iff split: option.splits)

text \<open>
  Claim C6, as stated, fails: when the timeout elapses the call fails with the timeout
  error, but the table of waits still holds the entry; its size is one more than before
  the call.
\<close>

theorem wait_for_timeout_counterexample:
  "(let r = \<lparr>listeners = Map.empty, waits = Map.empty, futures = [], running_loop = True\<rparr>;
        (r1, fut) = wait_for r ''x'' ();
        (r2, err) = timeout_elapses r1 fut
    in err = Timeout_error \<and> table_size r ''x'' = 0 \<and> table_size r2 ''x'' = 1)"
  by (simp add: wait_for_def timeout_elapses_def table_size_def)

text \<open>What the steps between the registration and the timeout do to the tables.\<close>

lemma dispatch_other_name:
  "n \<noteq> resolved_name ev \<Longrightarrow> waits (fst (dispatch call r ev)) n = waits r n"
  by (auto simp: dispatch_def Let_def split: option.splits prod.splits)

lemma dispatch_futures: "futures (fst (dispatch call r ev)) = futures r"
  by (auto simp: dispatch_def Let_def split: option.splits prod.splits)

lemma dispatch_keeps_unsatisfied:
  assumes "length (filter (\<lambda>x. call x ev = Some True) (table r (resolved_name ev))) \<le> 1"
    and "call w ev \<noteq> Some True" and "w \<in> set (table r (resolved_name ev))"
  shows "w \<in> set (table (fst (dispatch call r ev)) (resolved_name ev))"
proof (cases "waits r (resolved_name ev)")
  case None
  then show ?thesis using assms(3) by (simp add: table_def)
next
  case (Some ws)
  then have ws: "table r (resolved_name ev) = ws" by (simp add: table_def)
  have pop: "pop_all (index_to_remove (\<lambda>x. call x ev = Some True) ws) ws =
             (filter (\<lambda>x. call x ev \<noteq> Some True) ws, None)"
    using pop_at_most_one [of "\<lambda>x. call x ev = Some True" ws] assms(1) ws by simp
  have "table (fst (dispatch call r ev)) (resolved_name ev) = ws \<or>
        table (fst (dispatch call r ev)) (resolved_name ev) =
          filter (\<lambda>x. call x ev \<noteq> Some True) ws"
    using Some pop by (simp add: dispatch_def table_def Let_def)
  then show ?thesis using assms(2,3) ws by auto
qed

lemma do_step_futures: "length (futures r) \<le> length (futures (do_step r s))"
  by (cases s) (simp_all add: wait_for_def timeout_elapses_def dispatch_futures Let_def)

lemma do_steps_futures: "length (futures r) \<le> length (futures (do_steps r steps))"
proof (induction steps arbitrary: r)
  case Nil
  show ?case by simp
next
  case (Cons s steps)
  show ?case
    using do_step_futures [of r s] Cons [of "do_step r s"] by simp
qed

lemma leaves_alone_keeps:
  assumes "w \<in> set (table r (wait_event w))" and "leaves_alone w r s"
  shows "w \<in> set (table (do_step r s) (wait_event w))"
proof (cases s)
  case (Wait_for n c)
  then show ?thesis
    using assms(1) by (auto simp: wait_for_def table_def Let_def split: option.splits)
next
  case (Dispatch call ev)
  show ?thesis
  proof (cases "resolved_name ev = wait_event w")
    case True
    then show ?thesis
      using Dispatch assms dispatch_keeps_unsatisfied [of call ev r w] by auto
  next
    case False
    then show ?thesis
      using Dispatch assms(1) dispatch_other_name [of "wait_event w" ev call r]
      by (simp add: table_def)
  qed
next
  case (Timeout f)
  then show ?thesis using assms(1) by (simp add: timeout_elapses_def table_def)
qed

lemma leave_alone_keeps:
  assumes "w \<in> set (table r (wait_event w))" and "leave_alone w r steps"
  shows "w \<in> set (table (do_steps r steps) (wait_event w))"
  using assms
proof (induction steps arbitrary: r)
  case Nil
  then show ?case by simp
next
  case (Cons s steps)
  then show ?case using leaves_alone_keeps [of w r s] by simp
qed

text \<open>
  Claim C6, amended. Take a call of \<open>wait_for\<close> and whatever happens before its timeout
  elapses, as long as no event dispatched under the name satisfies the wait (nor two or
  more of the waits pending under the name at once). Then the call fails with the timeout
  error and its future is cancelled, and the wait is not removed: it is in the table for
  the name when the timeout elapses, and the timeout leaves the tables as they are. When
  nothing happens in between, the wait is the last entry and the size of the table is
  one more than before the call.
\<close>

theorem wait_for_timeout_keeps_entry:
  assumes "wait_for r name checks = (r1, fut)"
    and "w = \<lparr>wait_event = name, wait_checks = checks, wait_future = fut\<rparr>"
    and "leave_alone w r1 steps"
    and "timeout_elapses (do_steps r1 steps) fut = (r2, err)"
  shows "err = Timeout_error \<and>
         waits r2 = waits (do_steps r1 steps) \<and>
         w \<in> set (table r2 name) \<and>
         futures r2 ! fut = Cancelled \<and>
         (steps = [] \<longrightarrow>
            table r2 name = table r name @ [w] \<and>
            table_size r2 name = Suc (table_size r name))"
proof -
  let ?r' = "do_steps r1 steps"
  have t1: "table r1 name = table r name @ [w]"
    using assms(1,2) by (auto simp: wait_for_def table_def Let_def)
  have f1: "fut < length (futures r1)"
    using assms(1) by (auto simp: wait_for_def Let_def)
  have n: "wait_event w = name" using assms(2) by simp
  have "w \<in> set (table r1 (wait_event w))" using t1 n by simp
  then have kept: "w \<in> set (table ?r' name)"
    using leave_alone_keeps [of w r1 steps] assms(3) n by simp
  have r2: "r2 = ?r'\<lparr>futures := (futures ?r')[fut := Cancelled]\<rparr>" and err: "err = Timeout_error"
    using assms(4) by (auto simp: timeout_elapses_def)
  have same: "waits r2 = waits ?r'" using r2 by simp
  have "fut < length (futures ?r')"
    using f1 do_steps_futures [of r1 steps] by simp
  then have cancelled: "futures r2 ! fut = Cancelled" using r2 by simp
  have last: "table r2 name = table r name @ [w] \<and>
              table_size r2 name = Suc (table_size r name)" if "steps = []"
    using that t1 same by (simp add: table_def table_size_def split: option.splits)
  show ?thesis
    using err same kept cancelled last by (simp add: table_def)
qed

text \<open>
  The amended claim C6 at a concrete registry: a first wait under \<open>x\<close> that every event
  satisfies, then the wait of the claim, which no event satisfies; before the timeout
  an event is dispatched under \<open>x\<close> and removes the first wait. (Each wait carries, in
  place of its predicate, the truth value of the predicate, and its call returns it.)
\<close>

theorem wait_for_timeout_keeps_entry_witness:
  "(let r = \<lparr>listeners = Map.empty,
             waits = [''x'' \<mapsto> [\<lparr>wait_event = ''x'', wait_checks = True, wait_future = 0\<rparr>]],
             futures = [Waiting], running_loop = True\<rparr>;
        w = \<lparr>wait_event = ''x'', wait_checks = False, wait_future = 1\<rparr>;
        steps = [Dispatch (\<lambda>w ev. Some (wait_checks w))
                   \<lparr>resolved_name = ''x'', attrs_attrs = [''override_name'']\<rparr>];
        (r1, fut) = wait_for r ''x'' False;
        (r2, err) = timeout_elapses (do_steps r1 steps) fut
    in fut = 1 \<and> leave_alone w r1 steps \<and>
       err = Timeout_error \<and> table r2 ''x'' = [w] \<and> futures r2 ! fut = Cancelled)"
proof -
  let ?r = "\<lparr>listeners = Map.empty,
             waits = [''x'' \<mapsto> [\<lparr>wait_event = ''x'', wait_checks = True, wait_future = 0\<rparr>]],
             futures = [Waiting], running_loop = True\<rparr>"
  let ?w = "\<lparr>wait_event = ''x'', wait_checks = False, wait_future = 1\<rparr>"
  let ?steps = "[Dispatch (\<lambda>(w :: bool wait) (ev :: event). Some (wait_checks w))
                   \<lparr>resolved_name = ''x'', attrs_attrs = [''override_name'']\<rparr>]"
  obtain r1 fut where reg: "wait_for ?r ''x'' False = (r1, fut)"
    by (cases "wait_for ?r ''x'' False")
  obtain r2 err where out: "timeout_elapses (do_steps r1 ?steps) fut = (r2, err)"
    by (cases "timeout_elapses (do_steps r1 ?steps) fut")
  have fut: "fut = 1" and r1: "r1 = ?r\<lparr>waits := [''x'' \<mapsto> [\<lparr>wait_event = ''x'', wait_checks = True, wait_future = 0\<rparr>, ?w]],
                                        futures := [Waiting, Waiting]\<rparr>"
    using reg by (auto simp: wait_for_def Let_def)
  have w: "?w = \<lparr>wait_event = ''x'', wait_checks = False, wait_future = fut\<rparr>"
    using fut by simp
  have alone: "leave_alone ?w r1 ?steps"
    by (simp add: r1 table_def)
  have tbl: "table r2 ''x'' = [?w]"
    using out
    by (auto simp: r1 timeout_elapses_def dispatch_def table_def index_to_remove_def
          enumerate_eq_zip upt_rec Let_def)
  have "err = Timeout_error \<and> futures r2 ! fut = Cancelled"
    using wait_for_timeout_keeps_entry [OF reg w alone out] by simp
  then show ?thesis
    using reg out fut alone tbl by (simp add: Let_def)
qed













section \<open>Properties of the reconnect loop\<close>

lemma ws_connect_first:
  "\<not> cl_closed c \<Longrightarrow>
   take (Suc 0) (fst (ws_connect call disconnect c as)) = [Connect (cl_params c)]"
  by (cases as) (simp_all add: Let_def split: prod.splits control.splits)

lemma ws_connect_Continue:
  assumes "\<not> cl_closed c" and "attempt_body call disconnect c a = (w, acts, Continue p)"
  shows "fst (ws_connect call disconnect c (a # rest)) =
         Connect (cl_params c) # acts @
         fst (ws_connect call disconnect
                \<lparr>cl_params = p, cl_ws = w, cl_closed = closed_after a\<rparr> rest)"
  using assms by (simp add: Let_def)

lemma ws_connect_Fall_through:
  assumes "\<not> cl_closed c" and "attempt_body call disconnect c a = (w, acts, Fall_through p)"
  shows "fst (ws_connect call disconnect c (a # rest)) =
         Connect (cl_params c) # acts @ Sleep 5 #
         fst (ws_connect call disconnect
                \<lparr>cl_params = p, cl_ws = w, cl_closed = closed_after a\<rparr> rest)"
  using assms by (simp add: Let_def)

lemma ws_connect_Raise:
  assumes "\<not> cl_closed c" and "attempt_body call disconnect c a = (w, acts, Raise f)"
  shows "ws_connect call disconnect c (a # rest) = (Connect (cl_params c) # acts, Raised f)"
  using assms by simp

text \<open>The handler when its dispatch of Disconnect returns, and when it raises.\<close>

lemma handle_returns:
  assumes "snd (snd (dispatch call reg disconnect)) = None" and "e \<noteq> OtherBaseException"
  shows "handle call disconnect reg w rdy e = ([Dispatch_Disconnect], after_disconnect w rdy e)"
  using assms by (simp add: handle_def)

lemma handle_raises:
  assumes "snd (snd (dispatch call reg disconnect)) = Some err" and "e \<noteq> OtherBaseException"
  shows "handle call disconnect reg w rdy e = ([Dispatch_Disconnect], Raise (Dispatch_raised err))"
  using assms by (simp add: handle_def)

lemma after_resume_branch: "resume_branch e rdy \<Longrightarrow> after_disconnect w rdy e = Continue (resumed w)"
  by (auto simp: resume_branch_def)

lemma after_fresh_branch: "fresh_branch e \<Longrightarrow> after_disconnect w rdy e = Fall_through fresh"
  by (cases e) (auto simp: fresh_branch_def)

lemma after_leaves:
  "\<not> resume_branch e rdy \<Longrightarrow> \<not> fresh_branch e \<Longrightarrow>
   after_disconnect w rdy e = Return \<or> (\<exists>f. after_disconnect w rdy e = Raise f)"
  by (cases e) (auto simp: resume_branch_def fresh_branch_def)

text \<open>
  The dispatch returns whenever no wait pending under the name of the event raises
  and the event satisfies at most one of them (and the event loop is running).
\<close>

lemma disconnect_returns_at_most_one:
  assumes "running_loop (registry_then a)"
    and "\<forall>w \<in> set (table (registry_then a) (resolved_name disconnect)).
           call w disconnect \<noteq> None"
    and "length (filter (\<lambda>w. call w disconnect = Some True)
                   (table (registry_then a) (resolved_name disconnect))) \<le> 1"
  shows "disconnect_returns call disconnect a"
  using dispatch_at_most_one(1) [of "registry_then a" disconnect call] assms
  by (simp add: disconnect_returns_def)

lemmas example_defs =
  disconnect_event_def idle_registry_def truth_value_def first_client_def session_def
  run_ends_def

lemma idle_dispatch: "snd (snd (dispatch truth_value idle_registry disconnect_event)) = None"
  by (simp add: dispatch_def example_defs)

text \<open>
  Claim C1, as stated, fails on the loop. After an internal restart request with
  \<open>resume\<close> false the handler resets the parameters and falls through to the sleep, so
  the loop waits 5 before the fresh attempt; after a clean close (code 1000) past
  readiness, and after a transport reset (errno 54), the handler ends in \<open>continue\<close> and
  the next attempt follows the Disconnect at once.
\<close>

theorem restart_without_resume_sleeps:
  "ws_connect truth_value disconnect_event first_client
     [run_ends (WebSocketRestart False) idle_registry]
     = ([Connect fresh, Dispatch_Disconnect, Sleep 5, Connect fresh], Pending) \<and>
   ws_connect truth_value disconnect_event first_client
     [run_ends (WebSocketClosed 1000) idle_registry]
     = ([Connect fresh, Dispatch_Disconnect, Connect (resumed session)], Pending) \<and>
   ws_connect truth_value disconnect_event first_client
     [run_ends (OSError (Some 54)) idle_registry]
     = ([Connect fresh, Dispatch_Disconnect, Connect (resumed session)], Pending)"
  using idle_dispatch
  by (simp add: attempt_body_def handle_def first_client_def run_ends_def)

text \<open>
  Claim C1, amended. Take an attempt that fails, in \<open>connect\<close> or in \<open>run\<close>, and whose
  handler gets through its dispatch of Disconnect (the dispatch raises nothing). If the
  failure leads to another attempt, the sleep of 5 is taken exactly when that attempt is
  a fresh one: a resume (restart request with \<open>resume\<close> true, close with code 1000 past
  readiness, errno 54 or 10054) reconnects right after the Disconnect, a fresh reconnect
  (restart request with \<open>resume\<close> false, any other transport error, any other
  \<open>Exception\<close>) sleeps 5 first, and every other failure ends the loop with no further
  attempt and no sleep.
\<close>

theorem delay_only_before_fresh_reconnect:
  assumes "\<not> cl_closed c" and "\<not> closed_after a"
    and "how a = RunRaised w e \<or> (how a = ConnectRaised e \<and> w = cl_ws c)"
    and "disconnect_returns call disconnect a"
  shows "(resume_branch e (ready_after a) \<longrightarrow>
            take 3 (fst (ws_connect call disconnect c (a # rest))) =
              [Connect (cl_params c), Dispatch_Disconnect, Connect (resumed w)]) \<and>
         (fresh_branch e \<longrightarrow>
            take 4 (fst (ws_connect call disconnect c (a # rest))) =
              [Connect (cl_params c), Dispatch_Disconnect, Sleep 5, Connect fresh]) \<and>
         (\<not> resume_branch e (ready_after a) \<and> \<not> fresh_branch e \<longrightarrow>
            (fst (ws_connect call disconnect c (a # rest)) =
               [Connect (cl_params c), Dispatch_Disconnect] \<or>
             fst (ws_connect call disconnect c (a # rest)) = [Connect (cl_params c)]) \<and>
            (snd (ws_connect call disconnect c (a # rest)) = Returned \<or>
             (\<exists>f. snd (ws_connect call disconnect c (a # rest)) = Raised f)))"
proof (intro conjI impI)
  let ?h = "handle call disconnect (registry_then a) w (ready_after a) e"
  have body: "attempt_body call disconnect c a = (w, ?h)"
    using assms(3) by (auto simp: attempt_body_def)
  have ret: "snd (snd (dispatch call (registry_then a) disconnect)) = None"
    using assms(4) by (simp add: disconnect_returns_def)
  {
    assume r: "resume_branch e (ready_after a)"
    then have "e \<noteq> OtherBaseException" by (auto simp: resume_branch_def)
    then have b: "attempt_body call disconnect c a =
                  (w, [Dispatch_Disconnect], Continue (resumed w))"
      using body handle_returns [OF ret] after_resume_branch [OF r] by simp
    let ?c' = "\<lparr>cl_params = resumed w, cl_ws = w, cl_closed = closed_after a\<rparr>"
    have "take (Suc 0) (fst (ws_connect call disconnect ?c' rest)) = [Connect (resumed w)]"
      using ws_connect_first [of ?c' call disconnect rest] assms(2) by simp
    then show "take 3 (fst (ws_connect call disconnect c (a # rest))) =
                [Connect (cl_params c), Dispatch_Disconnect, Connect (resumed w)]"
      using ws_connect_Continue [OF assms(1) b, of rest]
      by (simp add: numeral_3_eq_3 del: ws_connect.simps)
  }
  {
    assume f: "fresh_branch e"
    then have "e \<noteq> OtherBaseException" by (auto simp: fresh_branch_def)
    then have b: "attempt_body call disconnect c a =
                  (w, [Dispatch_Disconnect], Fall_through fresh)"
      using body handle_returns [OF ret] after_fresh_branch [OF f] by simp
    let ?c' = "\<lparr>cl_params = fresh, cl_ws = w, cl_closed = closed_after a\<rparr>"
    have "take (Suc 0) (fst (ws_connect call disconnect ?c' rest)) = [Connect fresh]"
      using ws_connect_first [of ?c' call disconnect rest] assms(2) by simp
    then show "take 4 (fst (ws_connect call disconnect c (a # rest))) =
                [Connect (cl_params c), Dispatch_Disconnect, Sleep 5, Connect fresh]"
      using ws_connect_Fall_through [OF assms(1) b, of rest]
      by (simp add: eval_nat_numeral del: ws_connect.simps)
  }
  {
    assume n: "\<not> resume_branch e (ready_after a) \<and> \<not> fresh_branch e"
    have l: "fst ?h = [Dispatch_Disconnect] \<or> fst ?h = []"
      using ret by (simp add: handle_def)
    have k: "snd ?h = Return \<or> (\<exists>f. snd ?h = Raise f)"
      using ret after_leaves [of e "ready_after a" w] n by (auto simp: handle_def)
    obtain acts ctl where h: "?h = (acts, ctl)" by (cases ?h)
    have r: "ws_connect call disconnect c (a # rest) =
          (Connect (cl_params c) # acts,
           case ctl of Return \<Rightarrow> Returned | Raise f \<Rightarrow> Raised f)"
      using assms(1) body h k by auto
    show "fst (ws_connect call disconnect c (a # rest)) =
            [Connect (cl_params c), Dispatch_Disconnect] \<or>
          fst (ws_connect call disconnect c (a # rest)) = [Connect (cl_params c)]"
      using r l h by auto
    show "snd (ws_connect call disconnect c (a # rest)) = Returned \<or>
          (\<exists>f. snd (ws_connect call disconnect c (a # rest)) = Raised f)"
      using r k h by auto
  }
qed

text \<open>The three cases of the amended claim C1 at concrete attempts.\<close>

theorem delay_only_before_fresh_reconnect_witness:
  "disconnect_returns truth_value disconnect_event
     (run_ends (OSError (Some 10054)) idle_registry) \<and>
   resume_branch (OSError (Some 10054)) True \<and>
   take 3 (fst (ws_connect truth_value disconnect_event first_client
                  [run_ends (OSError (Some 10054)) idle_registry])) =
     [Connect fresh, Dispatch_Disconnect, Connect (resumed session)] \<and>
   fresh_branch GatewayNotFound \<and>
   take 4 (fst (ws_connect truth_value disconnect_event first_client
                  [run_ends GatewayNotFound idle_registry])) =
     [Connect fresh, Dispatch_Disconnect, Sleep 5, Connect fresh] \<and>
   \<not> resume_branch (WebSocketClosed 4011) True \<and> \<not> fresh_branch (WebSocketClosed 4011) \<and>
   fst (ws_connect truth_value disconnect_event first_client
          [run_ends (WebSocketClosed 4011) idle_registry]) =
     [Connect fresh, Dispatch_Disconnect]"
proof -
  have c: "\<not> cl_closed first_client" by (simp add: first_client_def)
  have a: "\<not> closed_after (run_ends e idle_registry)"
    "how (run_ends e idle_registry) = RunRaised session e \<or>
     (how (run_ends e idle_registry) = ConnectRaised e \<and> session = cl_ws first_client)"
    "ready_after (run_ends e idle_registry)" for e
    by (simp_all add: run_ends_def)
  have d: "disconnect_returns truth_value disconnect_event (run_ends e idle_registry)" for e
    using idle_dispatch by (simp add: disconnect_returns_def run_ends_def)
  have r: "resume_branch (OSError (Some 10054)) True" by (simp add: resume_branch_def)
  have f: "fresh_branch GatewayNotFound" by (simp add: fresh_branch_def)
  have n: "\<not> resume_branch (WebSocketClosed 4011) True" "\<not> fresh_branch (WebSocketClosed 4011)"
    by (simp_all add: resume_branch_def fresh_branch_def)
  have params: "cl_params first_client = fresh" by (simp add: first_client_def)
  have last: "fst (ws_connect truth_value disconnect_event first_client
                     [run_ends (WebSocketClosed 4011) idle_registry]) =
              [Connect fresh, Dispatch_Disconnect]"
    using idle_dispatch
    by (simp add: attempt_body_def handle_def first_client_def run_ends_def)
  show ?thesis
    using delay_only_before_fresh_reconnect [OF c a(1,2) d, of "OSError (Some 10054)" "[]"]
          delay_only_before_fresh_reconnect [OF c a(1,2) d, of GatewayNotFound "[]"]
          delay_only_before_fresh_reconnect [OF c a(1,2) d, of "WebSocketClosed 4011" "[]"]
          a(3) r f n d params last
    by (simp del: ws_connect.simps)
qed

text \<open>
  Apart from a raising dispatch, a clean close is followed by a resume: when the running
  connection closes with code 1000 past readiness and the dispatch of Disconnect returns,
  the next action after the one Disconnect is a connection attempt in resume mode with
  the session id and the sequence number of the closed connection, with no sleep between.
\<close>

lemma clean_close_after_ready_resumes:
  assumes "\<not> cl_closed c" and "\<not> closed_after a"
    and "how a = RunRaised w (WebSocketClosed 1000)" and "ready_after a"
    and "disconnect_returns call disconnect a"
  shows "take 3 (fst (ws_connect call disconnect c (a # rest))) =
           [Connect (cl_params c), Dispatch_Disconnect,
            Connect \<lparr>resume = True, session_id = ws_session_id w, sequence = ws_sequence w\<rparr>]"
proof -
  have ret: "snd (snd (dispatch call (registry_then a) disconnect)) = None"
    using assms(5) by (simp add: disconnect_returns_def)
  have b: "attempt_body call disconnect c a = (w, [Dispatch_Disconnect], Continue (resumed w))"
    using assms(3,4) handle_returns [OF ret, of "WebSocketClosed 1000"]
    by (simp add: attempt_body_def)
  let ?c' = "\<lparr>cl_params = resumed w, cl_ws = w, cl_closed = closed_after a\<rparr>"
  have "take (Suc 0) (fst (ws_connect call disconnect ?c' rest)) = [Connect (resumed w)]"
    using ws_connect_first [of ?c' call disconnect rest] assms(2) by simp
  then show ?thesis
    using ws_connect_Continue [OF assms(1) b, of rest]
    by (simp add: numeral_3_eq_3 resumed_def del: ws_connect.simps)
qed

text \<open>
  A wait whose call raises has the same effect on the loop as a failing pop: the
  exception leaves the handler and \<open>_ws_connect\<close>.
\<close>

lemma raising_wait_ends_loop:
  "ws_connect (\<lambda>w ev. None) disconnect_event first_client
     (run_ends (WebSocketClosed 1000) two_waiters # rest)
     = ([Connect fresh, Dispatch_Disconnect], Raised (Dispatch_raised Wait_raised))"
proof -
  have d: "snd (snd (dispatch (\<lambda>w ev. None) two_waiters disconnect_event)) = Some Wait_raised"
    by (simp add: dispatch_def two_waiters_def disconnect_event_def)
  have "attempt_body (\<lambda>w ev. None) disconnect_event first_client
          (run_ends (WebSocketClosed 1000) two_waiters) =
        (session, [Dispatch_Disconnect], Raise (Dispatch_raised Wait_raised))"
    using handle_raises [OF d, of "WebSocketClosed 1000" session True]
    by (simp add: attempt_body_def run_ends_def)
  then show ?thesis
    using ws_connect_Raise [of first_client "\<lambda>w ev. None" disconnect_event _ session
                               "[Dispatch_Disconnect]" "Dispatch_raised Wait_raised" rest]
    by (simp add: first_client_def)
qed

text \<open>
  Claim C3 does not hold of the loop. With two waits pending under the name of the
  Disconnect event, both satisfied by it, the connection closes with code 1000 past
  readiness. The handler dispatches Disconnect, the pop loop of \<open>dispatch\<close> raises
  \<open>IndexError\<close> on its second pop, and the exception, raised inside the \<open>except\<close> clause,
  leaves \<open>_ws_connect\<close>: one Disconnect is dispatched and no attempt to reconnect follows,
  whatever the gateway would answer next.
\<close>

theorem clean_close_with_two_waiters_ends_loop:
  "snd (snd (dispatch truth_value two_waiters disconnect_event)) = Some IndexError \<and>
   ws_connect truth_value disconnect_event first_client
     (run_ends (WebSocketClosed 1000) two_waiters # rest)
     = ([Connect fresh, Dispatch_Disconnect], Raised (Dispatch_raised IndexError))"
proof -
  have d: "snd (snd (dispatch truth_value two_waiters disconnect_event)) = Some IndexError"
    by (simp add: dispatch_def two_waiters_def disconnect_event_def truth_value_def
          index_to_remove_def enumerate_eq_zip upt_rec)
  have "attempt_body truth_value disconnect_event first_client
          (run_ends (WebSocketClosed 1000) two_waiters) =
        (session, [Dispatch_Disconnect], Raise (Dispatch_raised IndexError))"
    using handle_raises [OF d, of "WebSocketClosed 1000" session True]
    by (simp add: attempt_body_def run_ends_def)
  then show ?thesis
    using d ws_connect_Raise [of first_client truth_value disconnect_event _ session
                                 "[Dispatch_Disconnect]" "Dispatch_raised IndexError" rest]
    by (simp add: first_client_def del: ws_connect.simps)
qed

section \<open>Properties of the readiness gate\<close>

lemma wait_guilds_full:
  "wait_guilds expected wakes = Some All_guilds_cached \<Longrightarrow>
   \<exists>pre cache post. wakes = pre @ Guild_signal cache # post \<and> card cache = card expected \<and>
      (\<forall>w \<in> set pre. \<exists>c. w = Guild_signal c \<and> card c \<noteq> card expected)"
proof (induction expected wakes rule: wait_guilds.induct)
  case (1 expected)
  then show ?case by simp
next
  case (2 expected rest)
  then show ?case by simp
next
  case (3 expected guild_cache rest)
  show ?case
  proof (cases "card guild_cache = card expected")
    case True
    then have "Guild_signal guild_cache # rest = [] @ Guild_signal guild_cache # rest \<and>
       card guild_cache = card expected \<and>
       (\<forall>w \<in> set []. \<exists>c. w = Guild_signal c \<and> card c \<noteq> card expected)" by simp
    then show ?thesis by blast
  next
    case False
    with 3 obtain pre cache post where
      h: "rest = pre @ Guild_signal cache # post" "card cache = card expected"
         "\<forall>w \<in> set pre. \<exists>c. w = Guild_signal c \<and> card c \<noteq> card expected"
      by auto
    have "Guild_signal guild_cache # rest = (Guild_signal guild_cache # pre) @ Guild_signal cache # post \<and>
       card cache = card expected \<and>
       (\<forall>w \<in> set (Guild_signal guild_cache # pre). \<exists>c. w = Guild_signal c \<and> card c \<noteq> card expected)"
      using h False by simp
    then show ?thesis by blast
  qed
qed

text \<open>
  Claim C8 does not hold of the gate: the loop compares the number of cached guilds with
  the number of expected guilds. With the handshake payload naming guild 7 and the cache
  holding guild 5 at the first signal, the loop exits as if all guilds were cached,
  although the two sets differ.
\<close>

theorem gate_compares_sizes_only:
  "on_websocket_ready [7] [Guild_signal {5}] = Some All_guilds_cached \<and>
   {5} \<noteq> expected_guilds [7]"
  by (simp add: on_websocket_ready_def expected_guilds_def)

section \<open>Properties of option resolution and of message commands\<close>

text \<open>
  Claim C9. Resolving an option of kind \<open>USER\<close> whose ids convert does not fail: the result
  is the member cached under the pair of the guild id and the value if there is one,
  else the user cached under the value if there is one, else the raw value.
\<close>

theorem user_option_resolution:
  assumes "opt_type option = USER"
    and "to_snowflake (case guild_id of None \<Rightarrow> JInt 0 | Some g \<Rightarrow> g) = Inr g"
    and "to_snowflake (opt_value option) = Inr u"
  shows "resolve_option to_snowflake cache guild_id option =
           Inr (case member_cache cache (Guild_user g u) of
                  Some m \<Rightarrow> Of_member m
                | None \<Rightarrow>
                    (case user_cache cache u of
                       Some x \<Rightarrow> Of_user x
                     | None \<Rightarrow> Raw (opt_value option)))"
  using assms by (simp add: resolve_option_def Let_def split: option.splits)

text \<open>
  Claim C9 at concrete caches: an id held by the user cache only resolves to the cached
  user, an id held by no cache stays the raw value.
\<close>

theorem user_option_resolution_witness:
  "(let to_snowflake = (\<lambda>j. case j of JInt i \<Rightarrow> Inr i | JStr s \<Rightarrow> (if s = ''42'' then Inr 42 else Inl ''ValueError'') | JNull \<Rightarrow> Inl ''TypeError'');
        cache = \<lparr>member_cache = Map.empty, user_cache = [42 \<mapsto> User ''u42''],
                 channel_cache = Map.empty, role_cache = Map.empty\<rparr>
    in resolve_option to_snowflake cache None \<lparr>opt_type = 6, opt_name = ''who'', opt_value = JStr ''42''\<rparr>
         = Inr (Of_user (User ''u42'')) \<and>
       resolve_option to_snowflake (cache\<lparr>user_cache := Map.empty\<rparr>) (Some (JInt 9)) \<lparr>opt_type = 6, opt_name = ''who'', opt_value = JStr ''42''\<rparr>
         = Inr (Raw (JStr ''42'')))"
proof -
  let ?ts = "\<lambda>j. case j of JInt i \<Rightarrow> Inr i | JStr s \<Rightarrow> (if s = ''42'' then Inr (42::int) else Inl ''ValueError'') | JNull \<Rightarrow> Inl ''TypeError''"
  let ?o = "\<lparr>opt_type = 6, opt_name = ''who'', opt_value = JStr ''42''\<rparr>"
  let ?c = "\<lparr>member_cache = Map.empty, user_cache = [42 \<mapsto> User ''u42''],
                 channel_cache = Map.empty, role_cache = Map.empty\<rparr>"
  have a: "opt_type ?o = USER" by (simp add: USER_def)
  have b: "?ts (case None of None \<Rightarrow> JInt 0 | Some g \<Rightarrow> g) = Inr 0" by simp
  have b': "?ts (case Some (JInt 9) of None \<Rightarrow> JInt 0 | Some g \<Rightarrow> g) = Inr 9" by simp
  have c: "?ts (opt_value ?o) = Inr 42" by simp
  show ?thesis
    using user_option_resolution [of ?o ?ts None 0 42 ?c, OF a b c]
          user_option_resolution [of ?o ?ts "Some (JInt 9)" 9 42 "?c\<lparr>user_cache := Map.empty\<rparr>", OF a b' c]
    by (simp add: Let_def)
qed

text \<open>
  Claim C10. For a message whose author is flagged as a bot, whoever the author is, the
  listener does nothing: the prefix resolver is not called and no command is invoked.
\<close>

theorem bot_author_is_ignored:
  "author_bot msg \<Longrightarrow> dispatch_msg_commands env msg = []"
  by (simp add: dispatch_msg_commands_def)

text \<open>Claim C10 at the message of a bot other than the client, with a matching command.\<close>

theorem bot_author_is_ignored_witness:
  "(let env = \<lparr>get_prefix = (\<lambda>m. ''!''), MENTION_PREFIX = ''<mention>'',
                mention_reg_search = (\<lambda>s. None), get_first_word = (\<lambda>s. takeWhile (\<lambda>c. c \<noteq> CHR '' '') s),
                commands = [''ping'' \<mapsto> \<lparr>enabled = True, call_raises = (\<lambda>c. None)\<rparr>],
                get_args = (\<lambda>m p n. [])\<rparr>;
        msg = \<lparr>author_id = 77, author_bot = True, content = ''!ping''\<rparr>
    in author_bot msg \<and> dispatch_msg_commands env msg = [] \<and>
       dispatch_msg_commands env (msg\<lparr>author_bot := False\<rparr>) \<noteq> [])"
proof -
  let ?env = "\<lparr>get_prefix = (\<lambda>m. ''!''), MENTION_PREFIX = ''<mention>'',
                mention_reg_search = (\<lambda>s. None), get_first_word = (\<lambda>s. takeWhile (\<lambda>c. c \<noteq> CHR '' '') s),
                commands = [''ping'' \<mapsto> \<lparr>enabled = True, call_raises = (\<lambda>c. None)\<rparr>],
                get_args = (\<lambda>m p n. [])\<rparr>"
  let ?msg = "\<lparr>author_id = 77, author_bot = True, content = ''!ping''\<rparr>"
  have b: "author_bot ?msg" by simp
  have "dispatch_msg_commands ?env (?msg\<lparr>author_bot := False\<rparr>) \<noteq> []"
    by (simp add: dispatch_msg_commands_def Let_def)
  then show ?thesis
    using bot_author_is_ignored [OF b, of ?env] by (simp add: Let_def)
qed

lemma human_author_resolves_prefix:
  "\<not> author_bot msg \<Longrightarrow> hd (dispatch_msg_commands env msg) = Get_prefix msg"
  by (simp add: dispatch_msg_commands_def Let_def split: option.splits)

section \<open>Properties of command reconciliation\<close>

lemmas ping_defs =
  ping_env_def ping_state_def ping_command_def ping_remote_def ping_json_def

lemma cache_registered_reads:
  "list_all (\<lambda>c. \<not> is_write c) (fst (cache_registered env st ss))"
  by (induction ss arbitrary: st) (auto simp: Let_def split: sum.splits error.splits)

lemma cache_remaining_reads:
  "list_all (\<lambda>c. \<not> is_write c) (fst (cache_remaining env st ss))"
  by (induction ss arbitrary: st) (auto simp: Let_def split: sum.splits error.splits)

lemma cache_interactions_reads:
  "list_all (\<lambda>c. \<not> is_write c) (fst (cache_interactions env st))"
  using cache_registered_reads [of env st "map fst (interactions st)"]
        cache_remaining_reads [of env _ "bot_scopes env st"]
  by (auto simp: cache_interactions_def Let_def split: prod.splits sum.splits)

subsection \<open>The caching step run twice\<close>

lemma assigned_empty: "assigned Map.empty Map.empty st = st"
  by (simp add: assigned_def map_nth)

lemma interactions_assigned: "interactions (assigned ids scopes st) = interactions st"
  by (simp add: assigned_def)

lemma local_refs_assigned: "local_refs (assigned ids scopes st) s = local_refs st s"
  by (simp add: local_refs_def interactions_assigned)

lemma bot_scopes_assigned: "bot_scopes env (assigned ids scopes st) = bot_scopes env st"
  by (simp add: bot_scopes_def interactions_assigned)

lemma length_assigned: "length (objects (assigned ids scopes st)) = length (objects st)"
  by (simp add: assigned_def)

lemma nth_beyond: "length xs = length ys \<Longrightarrow> length xs \<le> n \<Longrightarrow> xs ! n = ys ! n"
proof (induction xs ys arbitrary: n rule: list_induct2)
  case Nil
  then show ?case by simp
next
  case (Cons x xs y ys)
  then show ?case by (cases n) simp_all
qed

lemma name_assigned:
  "cmd_name (objects (assigned ids scopes st) ! ref) = cmd_name (objects st ! ref)"
proof (cases "ref < length (objects st)")
  case True
  then show ?thesis by (simp add: assigned_def split: option.splits)
next
  case False
  then have "objects (assigned ids scopes st) ! ref = objects st ! ref"
    using nth_beyond [of "objects (assigned ids scopes st)" "objects st" ref]
    by (simp add: length_assigned)
  then show ?thesis by simp
qed

lemma scope_assigned:
  "(assigned ids scopes st)\<lparr>interaction_scopes :=
      (interaction_scopes (assigned ids scopes st))(k \<mapsto> s)\<rparr> =
   assigned ids (scopes(k \<mapsto> s)) st"
  by (simp add: assigned_def)

lemma set_cmd_id_assigned:
  "set_cmd_id (assigned ids scopes st) ref i = assigned (ids(ref \<mapsto> i)) scopes st"
proof -
  have "(objects (assigned ids scopes st))
          [ref := (objects (assigned ids scopes st) ! ref)\<lparr>cmd_id := Some i\<rparr>] =
        objects (assigned (ids(ref \<mapsto> i)) scopes st)"
    by (rule nth_equalityI)
       (auto simp: assigned_def nth_list_update split: option.splits)
  then show ?thesis
    by (simp add: set_cmd_id_def assigned_def)
qed

lemma cache_local_assigned:
  "\<exists>ids scopes. \<forall>F G. cache_local s remote_cmds (assigned F G st) ref =
                       assigned (F ++ ids) (G ++ scopes) st"
proof (cases "find (\<lambda>d. r_name d = cmd_name (objects st ! ref)) (rev remote_cmds)")
  case None
  then have "\<forall>F G. cache_local s remote_cmds (assigned F G st) ref =
                   assigned (F ++ Map.empty) (G ++ Map.empty) st"
    by (simp add: cache_local_def name_assigned)
  then show ?thesis by blast
next
  case (Some d)
  have "\<forall>F G. cache_local s remote_cmds (assigned F G st) ref =
              assigned (F ++ [ref \<mapsto> r_id d]) (G ++ [r_id d \<mapsto> s]) st"
    using Some by (simp add: cache_local_def name_assigned scope_assigned set_cmd_id_assigned)
  then show ?thesis by blast
qed

lemma cache_locals_assigned:
  "\<exists>ids scopes. \<forall>F G. foldl (cache_local s remote_cmds) (assigned F G st) refs =
                       assigned (F ++ ids) (G ++ scopes) st"
proof (induction refs rule: rev_induct)
  case Nil
  have "\<forall>F G. foldl (cache_local s remote_cmds) (assigned F G st) [] =
              assigned (F ++ Map.empty) (G ++ Map.empty) st"
    by simp
  then show ?case by blast
next
  case (snoc ref refs)
  from snoc.IH obtain ids scopes where
    front: "\<And>F G. foldl (cache_local s remote_cmds) (assigned F G st) refs =
                   assigned (F ++ ids) (G ++ scopes) st"
    by blast
  from cache_local_assigned [of s remote_cmds st ref] obtain ids' scopes' where
    last: "\<And>F G. cache_local s remote_cmds (assigned F G st) ref =
                  assigned (F ++ ids') (G ++ scopes') st"
    by blast
  have "\<forall>F G. foldl (cache_local s remote_cmds) (assigned F G st) (refs @ [ref]) =
              assigned (F ++ (ids ++ ids')) (G ++ (scopes ++ scopes')) st"
    by (simp add: front last)
  then show ?case by blast
qed

lemma scopes_assigned:
  "\<exists>scopes. \<forall>F G. foldl (\<lambda>st cmd_data.
                             st\<lparr>interaction_scopes := (interaction_scopes st)(r_id cmd_data \<mapsto> s)\<rparr>)
                          (assigned F G st) remote_cmds =
                   assigned F (G ++ scopes) st"
proof (induction remote_cmds rule: rev_induct)
  case Nil
  have "\<forall>F G. foldl (\<lambda>st cmd_data.
                        st\<lparr>interaction_scopes := (interaction_scopes st)(r_id cmd_data \<mapsto> s)\<rparr>)
                     (assigned F G st) [] =
              assigned F (G ++ Map.empty) st"
    by simp
  then show ?case by blast
next
  case (snoc d ds)
  from snoc.IH obtain scopes where
    front: "\<And>F G. foldl (\<lambda>st cmd_data.
                           st\<lparr>interaction_scopes := (interaction_scopes st)(r_id cmd_data \<mapsto> s)\<rparr>)
                        (assigned F G st) ds =
                   assigned F (G ++ scopes) st"
    by blast
  have "\<forall>F G. foldl (\<lambda>st cmd_data.
                        st\<lparr>interaction_scopes := (interaction_scopes st)(r_id cmd_data \<mapsto> s)\<rparr>)
                     (assigned F G st) (ds @ [d]) =
              assigned F (G ++ (scopes ++ [r_id d \<mapsto> s])) st"
    by (simp add: front scope_assigned)
  then show ?case by blast
qed

text \<open>
  Each part of the caching step either raises, whatever ids are cached already, or lays
  the same ids and scopes over the tables, whatever ids are cached already.
\<close>

lemma cache_registered_assigned:
  "(\<exists>log e. \<forall>F G. cache_registered env (assigned F G st) ss = (log, Inl e)) \<or>
   (\<exists>log ids scopes. \<forall>F G. cache_registered env (assigned F G st) ss =
                             (log, Inr (assigned (F ++ ids) (G ++ scopes) st)))"
proof (induction ss)
  case Nil
  have "\<forall>F G. cache_registered env (assigned F G st) [] =
              ([], Inr (assigned (F ++ Map.empty) (G ++ Map.empty) st))"
    by simp
  then show ?case by blast
next
  case (Cons s ss)
  show ?case
  proof (cases "get_interaction_element env s")
    case (Inl e)
    have "\<forall>F G. cache_registered env (assigned F G st) (s # ss) =
                ([Get s], Inl (if e = Forbidden then InteractionMissingAccess s else e))"
      using Inl by (cases e) simp_all
    then show ?thesis by blast
  next
    case (Inr remote_cmds)
    from cache_locals_assigned [of s remote_cmds st "local_refs st s"]
    obtain ids scopes where
      here: "\<And>F G. foldl (cache_local s remote_cmds) (assigned F G st) (local_refs st s) =
                    assigned (F ++ ids) (G ++ scopes) st"
      by blast
    have step: "cache_registered env (assigned F G st) (s # ss) =
                (Get s # fst (cache_registered env (assigned (F ++ ids) (G ++ scopes) st) ss),
                 snd (cache_registered env (assigned (F ++ ids) (G ++ scopes) st) ss))" for F G
      using Inr by (simp add: Let_def local_refs_assigned here)
    from Cons.IH show ?thesis
    proof
      assume "\<exists>log e. \<forall>F G. cache_registered env (assigned F G st) ss = (log, Inl e)"
      then obtain log e where
        "\<And>F G. cache_registered env (assigned F G st) ss = (log, Inl e)"
        by blast
      then have "\<forall>F G. cache_registered env (assigned F G st) (s # ss) = (Get s # log, Inl e)"
        by (simp add: step del: cache_registered.simps)
      then show ?thesis by blast
    next
      assume "\<exists>log ids scopes. \<forall>F G. cache_registered env (assigned F G st) ss =
                (log, Inr (assigned (F ++ ids) (G ++ scopes) st))"
      then obtain log ids' scopes' where
        "\<And>F G. cache_registered env (assigned F G st) ss =
                (log, Inr (assigned (F ++ ids') (G ++ scopes') st))"
        by blast
      then have "\<forall>F G. cache_registered env (assigned F G st) (s # ss) =
                  (Get s # log, Inr (assigned (F ++ (ids ++ ids')) (G ++ (scopes ++ scopes')) st))"
        by (simp add: step del: cache_registered.simps)
      then show ?thesis by blast
    qed
  qed
qed

lemma cache_remaining_assigned:
  "(\<exists>log e. \<forall>F G. cache_remaining env (assigned F G st) ss = (log, Inl e)) \<or>
   (\<exists>log ids scopes. \<forall>F G. cache_remaining env (assigned F G st) ss =
                             (log, Inr (assigned (F ++ ids) (G ++ scopes) st)))"
proof (induction ss)
  case Nil
  have "\<forall>F G. cache_remaining env (assigned F G st) [] =
              ([], Inr (assigned (F ++ Map.empty) (G ++ Map.empty) st))"
    by simp
  then show ?case by blast
next
  case (Cons s ss)
  have skip: ?case
    if step: "\<And>F G. cache_remaining env (assigned F G st) (s # ss) =
                (Get s # fst (cache_remaining env (assigned (F ++ ids) (G ++ scopes) st) ss),
                 snd (cache_remaining env (assigned (F ++ ids) (G ++ scopes) st) ss))"
    for ids scopes
    using Cons.IH
  proof
    assume "\<exists>log e. \<forall>F G. cache_remaining env (assigned F G st) ss = (log, Inl e)"
    then obtain log e where
      "\<And>F G. cache_remaining env (assigned F G st) ss = (log, Inl e)"
      by blast
    then have "\<forall>F G. cache_remaining env (assigned F G st) (s # ss) = (Get s # log, Inl e)"
      by (simp add: step del: cache_remaining.simps)
    then show ?thesis by blast
  next
    assume "\<exists>log ids scopes. \<forall>F G. cache_remaining env (assigned F G st) ss =
              (log, Inr (assigned (F ++ ids) (G ++ scopes) st))"
    then obtain log ids' scopes' where
      "\<And>F G. cache_remaining env (assigned F G st) ss =
              (log, Inr (assigned (F ++ ids') (G ++ scopes') st))"
      by blast
    then have "\<forall>F G. cache_remaining env (assigned F G st) (s # ss) =
                (Get s # log, Inr (assigned (F ++ (ids ++ ids')) (G ++ (scopes ++ scopes')) st))"
      by (simp add: step del: cache_remaining.simps)
    then show ?thesis by blast
  qed
  show ?case
  proof (cases "get_interaction_element env s")
    case (Inl e)
    show ?thesis
    proof (cases "e = Forbidden")
      case True
      have "cache_remaining env (assigned F G st) (s # ss) =
            (Get s # fst (cache_remaining env
                            (assigned (F ++ Map.empty) (G ++ Map.empty) st) ss),
             snd (cache_remaining env (assigned (F ++ Map.empty) (G ++ Map.empty) st) ss))"
        for F G
        using Inl True by (simp add: Let_def)
      then show ?thesis by (rule skip)
    next
      case False
      have "\<forall>F G. cache_remaining env (assigned F G st) (s # ss) = ([Get s], Inl e)"
        using Inl False by (cases e) simp_all
      then show ?thesis by blast
    qed
  next
    case (Inr remote_cmds)
    from scopes_assigned [of s st remote_cmds] obtain scopes where
      here: "\<And>F G. foldl (\<lambda>st cmd_data.
                            st\<lparr>interaction_scopes := (interaction_scopes st)(r_id cmd_data \<mapsto> s)\<rparr>)
                         (assigned F G st) remote_cmds =
                    assigned F (G ++ scopes) st"
      by blast
    have "cache_remaining env (assigned F G st) (s # ss) =
          (Get s # fst (cache_remaining env (assigned (F ++ Map.empty) (G ++ scopes) st) ss),
           snd (cache_remaining env (assigned (F ++ Map.empty) (G ++ scopes) st) ss))"
      for F G
      using Inr by (simp add: Let_def here)
    then show ?thesis by (rule skip)
  qed
qed

lemma cache_interactions_assigned:
  "(\<exists>log e. \<forall>F G. cache_interactions env (assigned F G st) = (log, Inl e)) \<or>
   (\<exists>log ids scopes. \<forall>F G. cache_interactions env (assigned F G st) =
                             (log, Inr (assigned (F ++ ids) (G ++ scopes) st)))"
  using cache_registered_assigned [of env st "map fst (interactions st)"]
proof
  assume "\<exists>log e. \<forall>F G. cache_registered env (assigned F G st) (map fst (interactions st)) =
            (log, Inl e)"
  then obtain log e where
    "\<And>F G. cache_registered env (assigned F G st) (map fst (interactions st)) = (log, Inl e)"
    by blast
  then have "\<forall>F G. cache_interactions env (assigned F G st) = (log, Inl e)"
    by (simp add: cache_interactions_def interactions_assigned)
  then show ?thesis by blast
next
  assume "\<exists>log ids scopes. \<forall>F G.
            cache_registered env (assigned F G st) (map fst (interactions st)) =
              (log, Inr (assigned (F ++ ids) (G ++ scopes) st))"
  then obtain log ids scopes where
    first: "\<And>F G. cache_registered env (assigned F G st) (map fst (interactions st)) =
                   (log, Inr (assigned (F ++ ids) (G ++ scopes) st))"
    by blast
  have step: "cache_interactions env (assigned F G st) =
              (log @ fst (cache_remaining env (assigned (F ++ ids) (G ++ scopes) st)
                            (bot_scopes env st)),
               snd (cache_remaining env (assigned (F ++ ids) (G ++ scopes) st)
                      (bot_scopes env st)))" for F G
    by (simp add: cache_interactions_def interactions_assigned bot_scopes_assigned first
          Let_def)
  from cache_remaining_assigned [of env st "bot_scopes env st"] show ?thesis
  proof
    assume "\<exists>log e. \<forall>F G. cache_remaining env (assigned F G st) (bot_scopes env st) =
              (log, Inl e)"
    then obtain log' e where
      "\<And>F G. cache_remaining env (assigned F G st) (bot_scopes env st) = (log', Inl e)"
      by blast
    then have "\<forall>F G. cache_interactions env (assigned F G st) = (log @ log', Inl e)"
      by (simp add: step)
    then show ?thesis by blast
  next
    assume "\<exists>log ids scopes. \<forall>F G.
              cache_remaining env (assigned F G st) (bot_scopes env st) =
                (log, Inr (assigned (F ++ ids) (G ++ scopes) st))"
    then obtain log' ids' scopes' where
      "\<And>F G. cache_remaining env (assigned F G st) (bot_scopes env st) =
              (log', Inr (assigned (F ++ ids') (G ++ scopes') st))"
      by blast
    then have "\<forall>F G. cache_interactions env (assigned F G st) =
                (log @ log', Inr (assigned (F ++ (ids ++ ids')) (G ++ (scopes ++ scopes')) st))"
      by (simp add: step)
    then show ?thesis by blast
  qed
qed

text \<open>
  The caching step on the tables it has left: the same calls, and the tables stay as
  they are.
\<close>

lemma cache_interactions_twice:
  assumes "cache_interactions env st = (cached, Inr st0)"
  shows "cache_interactions env st0 = (cached, Inr st0)"
  using cache_interactions_assigned [of env st]
proof
  assume "\<exists>log e. \<forall>F G. cache_interactions env (assigned F G st) = (log, Inl e)"
  then obtain log e where
    "cache_interactions env (assigned Map.empty Map.empty st) = (log, Inl e)"
    by blast
  then show ?thesis using assms by (simp add: assigned_empty)
next
  assume "\<exists>log ids scopes. \<forall>F G. cache_interactions env (assigned F G st) =
            (log, Inr (assigned (F ++ ids) (G ++ scopes) st))"
  then obtain log ids scopes where
    run: "\<And>F G. cache_interactions env (assigned F G st) =
                 (log, Inr (assigned (F ++ ids) (G ++ scopes) st))"
    by blast
  from run [of Map.empty Map.empty] assms
  have first: "cached = log" "st0 = assigned ids scopes st"
    by (simp_all add: assigned_empty)
  have "ids ++ ids = ids" "scopes ++ scopes = scopes"
    by (auto simp: map_add_def split: option.splits)
  then show ?thesis
    using run [of ids scopes] first by simp
qed

subsection \<open>A run without bulk post and delete\<close>

lemma push_perms_edits:
  "list_all (\<lambda>c. \<not> is_command_write c) (fst (push_perms env gp))"
  by (induction gp) (auto simp: Let_def split: option.splits)

lemma collect_perms_none:
  "list_all (\<lambda>c. cmd_permissions c = []) cmds \<Longrightarrow> collect_perms gp cmds = gp"
  unfolding collect_perms_def
  by (induction cmds arbitrary: gp) (simp_all add: collect_cmd_def)

lemma add_perm_nonempty: "add_perm gp g e \<noteq> []"
  by (auto simp: add_perm_def)

lemma foldl_add_perm_nonempty:
  "gp \<noteq> [] \<or> ps \<noteq> [] \<Longrightarrow> foldl (\<lambda>gp perm. add_perm gp (f perm) e) gp ps \<noteq> []"
  by (induction ps arbitrary: gp) (simp_all add: add_perm_nonempty)

lemma collect_cmd_nonempty:
  assumes "gp \<noteq> [] \<or> cmd_permissions c \<noteq> []"
  shows "collect_cmd gp c \<noteq> []"
proof (cases "cmd_permissions c = []")
  case True
  then show ?thesis using assms by (simp add: collect_cmd_def)
next
  case False
  then show ?thesis
    using foldl_add_perm_nonempty [of gp "cmd_permissions c" perm_guild_id]
    by (simp add: collect_cmd_def)
qed

lemma collect_perms_nonempty:
  "gp \<noteq> [] \<or> \<not> list_all (\<lambda>c. cmd_permissions c = []) cmds \<Longrightarrow> collect_perms gp cmds \<noteq> []"
  unfolding collect_perms_def
proof (induction cmds arbitrary: gp)
  case Nil
  then show ?case by simp
next
  case (Cons c cmds)
  show ?case
  proof (cases "gp \<noteq> [] \<or> cmd_permissions c \<noteq> []")
    case True
    then have "collect_cmd gp c \<noteq> []" by (rule collect_cmd_nonempty)
    then show ?thesis using Cons.IH [of "collect_cmd gp c"] by simp
  next
    case False
    then have "collect_cmd gp c = gp" by (simp add: collect_cmd_def)
    then show ?thesis using Cons.IH [of gp] Cons.prems False by simp
  qed
qed

lemma push_perms_writes: "gp \<noteq> [] \<Longrightarrow> filter is_write (fst (push_perms env gp)) \<noteq> []"
  by (cases gp) (auto simp: Let_def split: option.splits)

lemma push_perms_none: "fst (push_perms env []) = []"
  by simp

lemma delete_unused_silent:
  "list_all (\<lambda>c. \<not> is_command_write c) (fst (delete_unused env cs)) \<Longrightarrow>
   fst (delete_unused env cs) = []"
  by (cases cs) (auto simp: Let_def split: option.splits)

text \<open>
  The body of the loop for one scope, when it completes without a bulk post and without
  a delete: the tables stay as they are, and the calls are the read of the scope and the
  permission updates.
\<close>

lemma sync_scope_silent:
  assumes "sync_scope env (st, gp) s = (log, Inr (st1, gp1))"
    and "list_all (\<lambda>c. \<not> is_command_write c) log"
  shows "st1 = st \<and> gp1 = collect_perms gp (local_cmds st s) \<and>
         log = Get s # fst (push_perms env gp1)"
proof -
  obtain resp where get: "get_interaction_element env s = Inr resp"
    using assms(1) by (cases "get_interaction_element env s") (simp_all add: sync_scope_def)
  obtain need ts fd where
    scan: "scan_local env s resp (local_cmds st s) (False, [], []) = Inr (need, ts, fd)"
    using assms(1) get
    by (cases "scan_local env s resp (local_cmds st s) (False, [], [])")
       (auto simp: sync_scope_def)
  have quiet: "\<not> need"
  proof
    assume need
    then have "\<exists>r. post_scope env st s need ts = ([Post s ts], r)"
      by (simp add: post_scope_def split: sum.splits)
    then obtain r where "post_scope env st s need ts = ([Post s ts], r)" ..
    then have "Post s ts \<in> set log"
      using assms(1) get scan
      by (auto simp: sync_scope_def Let_def split: sum.splits prod.splits option.splits
            if_splits)
    then show False using assms(2) by (auto simp: list_all_iff)
  qed
  then have post: "post_scope env st s need ts = ([], Inr st)"
    by (simp add: post_scope_def)
  let ?gp1 = "collect_perms gp (local_cmds st s)"
  obtain pushed where push: "push_perms env ?gp1 = (pushed, None)"
    using assms(1) get scan post
    by (cases "push_perms env ?gp1")
       (auto simp: sync_scope_def Let_def split: option.splits)
  show ?thesis
  proof (cases "del_unused_app_cmd env")
    case False
    then show ?thesis
      using assms(1) get scan post push by (auto simp: sync_scope_def Let_def)
  next
    case True
    obtain deleted where
      del: "delete_unused env (filter (\<lambda>c. Some c \<notin> set fd) resp) = (deleted, None)"
      using assms(1) get scan post push True
      by (cases "delete_unused env (filter (\<lambda>c. Some c \<notin> set fd) resp)")
         (auto simp: sync_scope_def Let_def split: option.splits)
    have all: "st1 = st \<and> gp1 = ?gp1 \<and> log = Get s # pushed @ deleted"
      using assms(1) get scan post push True del by (auto simp: sync_scope_def Let_def)
    then have "list_all (\<lambda>c. \<not> is_command_write c) deleted"
      using assms(2) by simp
    then have "deleted = []"
      using delete_unused_silent [of env "filter (\<lambda>c. Some c \<notin> set fd) resp"] del by simp
    then show ?thesis using all push by simp
  qed
qed

lemma push_perms_silent:
  "filter is_write (fst (push_perms env gp)) = [] \<longleftrightarrow> gp = []"
  using push_perms_writes [of gp env] by (cases "gp = []") simp_all

lemma collect_perms_empty:
  "collect_perms gp cmds = [] \<longleftrightarrow> gp = [] \<and> list_all (\<lambda>c. cmd_permissions c = []) cmds"
  using collect_perms_nonempty [of gp cmds] collect_perms_none [of cmds gp] by auto

text \<open>
  The loop over the scopes, when it completes without a bulk post and without a delete:
  the tables stay as they are, and no write call is made exactly when no permission
  entry is at hand and no local command of the scopes declares an overwrite.
\<close>

lemma sync_scopes_silent:
  assumes "sync_scopes env (st, gp) ss = (log, Inr (st1, gp1))"
    and "list_all (\<lambda>c. \<not> is_command_write c) log"
  shows "st1 = st \<and>
         (filter is_write log = [] \<longleftrightarrow>
            (ss = [] \<or> gp = []) \<and>
            list_all (\<lambda>s. list_all (\<lambda>c. cmd_permissions c = []) (local_cmds st s)) ss)"
  using assms
proof (induction ss arbitrary: gp log)
  case Nil
  then show ?case by simp
next
  case (Cons s ss)
  obtain l r where body: "sync_scope env (st, gp) s = (l, r)"
    by (cases "sync_scope env (st, gp) s")
  show ?case
  proof (cases r)
    case (Inl e)
    then have False using Cons.prems(1) body by (cases e) simp_all
    then show ?thesis ..
  next
    case (Inr sg)
    obtain st' gp' where sg: "sg = (st', gp')" by (cases sg)
    obtain l' where rest: "sync_scopes env (st', gp') ss = (l', Inr (st1, gp1))"
      and log: "log = l @ l'"
      using Cons.prems(1) body Inr sg
      by (cases "sync_scopes env (st', gp') ss") (simp add: Let_def)
    have ql: "list_all (\<lambda>c. \<not> is_command_write c) l"
      and ql': "list_all (\<lambda>c. \<not> is_command_write c) l'"
      using Cons.prems(2) log by simp_all
    from sync_scope_silent [of env st gp s l st' gp'] body Inr sg ql
    have here: "st' = st" "gp' = collect_perms gp (local_cmds st s)"
      "l = Get s # fst (push_perms env gp')"
      by simp_all
    from Cons.IH [of gp' l'] rest ql' here(1)
    have ih: "st1 = st"
      "filter is_write l' = [] \<longleftrightarrow>
         (ss = [] \<or> gp' = []) \<and>
         list_all (\<lambda>s. list_all (\<lambda>c. cmd_permissions c = []) (local_cmds st s)) ss"
      by simp_all
    have "filter is_write l = [] \<longleftrightarrow> gp' = []"
      using here(3) push_perms_silent [of env gp'] by simp
    moreover have "gp' = [] \<longleftrightarrow>
        gp = [] \<and> list_all (\<lambda>c. cmd_permissions c = []) (local_cmds st s)"
      using here(2) collect_perms_empty [of gp "local_cmds st s"] by simp
    ultimately show ?thesis
      using ih log by auto
  qed
qed

text \<open>
  Claim C4, as stated, fails in two ways. First, for a command that declares a
  permission overwrite: the first run over the small registry caches the id of \<open>ping\<close> and
  pushes the permissions for guild 10; the second run starts from the tables the first
  one left, with the remote registry and the local commands as they were, and pushes
  the same permissions again: one write call, and the tables stay as they are. Second,
  for a command for which \<open>sync_needed\<close> reports a difference on every run, as the
  docstring has it for context menus: the first run posts \<open>ping\<close>, and the second run, on
  the tables the first one left, makes the same calls again, the bulk post among them.
\<close>

theorem second_run_writes_again:
  "(case synchronise_interactions ping_env ping_state of
      (log1, Inl e) \<Rightarrow> False
    | (log1, Inr st1) \<Rightarrow>
        filter is_write (fst (synchronise_interactions ping_env st1)) =
          [Edit_permissions (Guild 10) [\<lparr>pe_id = Some ''1'', pe_permissions = [''allow'']\<rparr>]] \<and>
        snd (synchronise_interactions ping_env st1) = Inr st1) \<and>
   (case synchronise_interactions menu_env plain_state of
      (log1, Inl e) \<Rightarrow> False
    | (log1, Inr st1) \<Rightarrow>
        filter is_write log1 = [Post GLOBAL_SCOPE [ping_json]] \<and>
        synchronise_interactions menu_env st1 = (log1, Inr st1))"
  by (simp add: synchronise_interactions_def cache_interactions_def bot_scopes_def
        cmd_scopes_def sync_scope_def post_scope_def local_cmds_def local_refs_def
        cache_local_def set_cmd_id_def collect_perms_def collect_cmd_def add_perm_def
        menu_env_def plain_state_def ping_defs)

text \<open>
  Claim C4, amended. When a run completes without a bulk post and without a delete, so
  that it leaves the remote command set as it found it, a second run with the local
  commands, the remote command set and the declared permission overwrites unchanged
  makes the calls of the first run again, in the same order, and leaves the tables as
  they are. Its write calls are thus the permission updates of the first run: none
  exactly when no local command of the scopes declares a permission overwrite.
\<close>

theorem second_run_repeats_first:
  assumes "synchronise_interactions env st = (log, Inr st1)"
    and "list_all (\<lambda>c. \<not> is_command_write c) log"
  shows "synchronise_interactions env st1 = (log, Inr st1) \<and>
         (filter is_write log = [] \<longleftrightarrow> declares_no_permissions env st1)"
proof -
  obtain cached st0 where cache: "cache_interactions env st = (cached, Inr st0)"
    using assms(1)
    by (cases "cache_interactions env st"; cases "snd (cache_interactions env st)")
       (auto simp: synchronise_interactions_def)
  obtain l gp where loop: "sync_scopes env (st0, []) (cmd_scopes env) = (l, Inr (st1, gp))"
    and log: "log = cached @ l"
    using assms(1) cache
    by (cases "sync_scopes env (st0, []) (cmd_scopes env)";
        cases "snd (sync_scopes env (st0, []) (cmd_scopes env))")
       (auto simp: synchronise_interactions_def)
  have reads: "filter is_write cached = []"
    using cache_interactions_reads [of env st] cache
    by (auto simp: filter_empty_conv list_all_iff)
  have "list_all (\<lambda>c. \<not> is_command_write c) l"
    using assms(2) log by simp
  from sync_scopes_silent [OF loop this]
  have same: "st1 = st0"
    and writes: "filter is_write l = [] \<longleftrightarrow>
      list_all (\<lambda>s. list_all (\<lambda>c. cmd_permissions c = []) (local_cmds st0 s)) (cmd_scopes env)"
    by simp_all
  have again: "cache_interactions env st0 = (cached, Inr st0)"
    using cache by (rule cache_interactions_twice)
  have "synchronise_interactions env st1 = (log, Inr st1)"
    using again loop log same by (simp add: synchronise_interactions_def)
  moreover have "filter is_write log = [] \<longleftrightarrow> declares_no_permissions env st1"
    using reads writes log same by (simp add: declares_no_permissions_def)
  ultimately show ?thesis ..
qed

text \<open>
  The amended claim C4 at the small registry without permission overwrites: the first
  run caches the id of \<open>ping\<close> and writes nothing, and so does the second.
\<close>

theorem second_run_repeats_first_witness:
  "synchronise_interactions ping_env plain_state =
     ([Get GLOBAL_SCOPE, Get GLOBAL_SCOPE], Inr plain_state_cached) \<and>
   list_all (\<lambda>c. \<not> is_command_write c) [Get GLOBAL_SCOPE, Get GLOBAL_SCOPE] \<and>
   synchronise_interactions ping_env plain_state_cached =
     ([Get GLOBAL_SCOPE, Get GLOBAL_SCOPE], Inr plain_state_cached) \<and>
   filter is_write [Get GLOBAL_SCOPE, Get GLOBAL_SCOPE] = [] \<and>
   declares_no_permissions ping_env plain_state_cached"
proof -
  have r: "synchronise_interactions ping_env plain_state =
           ([Get GLOBAL_SCOPE, Get GLOBAL_SCOPE], Inr plain_state_cached)"
    by (simp add: synchronise_interactions_def cache_interactions_def bot_scopes_def
          cmd_scopes_def sync_scope_def post_scope_def local_cmds_def local_refs_def
          cache_local_def set_cmd_id_def collect_perms_def collect_cmd_def plain_state_def
          plain_state_cached_def ping_defs)
  have q: "list_all (\<lambda>c. \<not> is_command_write c) [Get GLOBAL_SCOPE, Get GLOBAL_SCOPE]"
    by simp
  show ?thesis
    using second_run_repeats_first [OF r q] r by simp
qed

lemma sync_scopes_forbidden:
  assumes "sync_scopes env sg before = (log, Inr sg1)"
    and "snd (sync_scope env sg1 cmd_scope) = Inl Forbidden"
  shows "sync_scopes env sg (before @ cmd_scope # later) =
           (log @ fst (sync_scope env sg1 cmd_scope), Inl (InteractionMissingAccess cmd_scope))"
  using assms
proof (induction before arbitrary: sg log)
  case Nil
  then show ?case by (cases "sync_scope env sg1 cmd_scope") auto
next
  case (Cons s before)
  obtain l r where body: "sync_scope env sg s = (l, r)" by (cases "sync_scope env sg s")
  show ?case
  proof (cases r)
    case (Inl e)
    then have False using Cons.prems(1) body by (cases e) simp_all
    then show ?thesis ..
  next
    case (Inr sg')
    obtain l' r' where rest: "sync_scopes env sg' before = (l', r')"
      by (cases "sync_scopes env sg' before")
    have "log = l @ l'" "r' = Inr sg1"
      using Cons.prems(1) body Inr rest by (simp_all add: Let_def)
    then show ?thesis
      using Cons.IH [of sg' l'] rest Cons.prems(2) body Inr by (simp add: Let_def)
  qed
qed

text \<open>
  In the first part of \<open>_cache_interactions\<close> a forbidden answer ends the pass in the same
  way.
\<close>

lemma cache_registered_forbidden:
  "get_interaction_element env s = Inl Forbidden \<Longrightarrow>
   cache_registered env st (s # later) = ([Get s], Inl (InteractionMissingAccess s))"
  by simp

text \<open>
  Claim C5, as stated, fails. The bot is a member of guild 1, which refuses it, and has
  one global command yet to be posted. The pass raises the missing-access error for
  guild 1 and makes no further call, so the global scope is not reconciled; were guild 1
  readable, the pass would go on to post the global command.
\<close>

theorem forbidden_guild_blocks_global_scope:
  "synchronise_interactions guild_env ping_state =
     ([Get GLOBAL_SCOPE, Get (Guild 1), Get (Guild 1)],
      Inl (InteractionMissingAccess (Guild 1))) \<and>
   fst (synchronise_interactions
          (guild_env\<lparr>get_interaction_element := (\<lambda>s. Inr [])\<rparr>) ping_state) =
     [Get GLOBAL_SCOPE, Get (Guild 1), Get (Guild 1), Get GLOBAL_SCOPE,
      Post GLOBAL_SCOPE [ping_json],
      Edit_permissions (Guild 10) [\<lparr>pe_id = Some ''1'', pe_permissions = [''allow'']\<rparr>]]"
  by (simp add: synchronise_interactions_def cache_interactions_def bot_scopes_def
        cmd_scopes_def sync_scope_def post_scope_def local_cmds_def local_refs_def
        cache_local_def set_cmd_id_def collect_perms_def collect_cmd_def add_perm_def
        ping_defs guild_env_def)

text \<open>
  Claim C5, amended. A forbidden answer while a scope is processed is raised as the
  missing-access error that names this scope, and it ends the whole pass: the calls of
  the pass are those of the caching step, of the scopes before, and of the forbidden
  scope up to the refused call; no scope after it is processed.
\<close>

theorem forbidden_scope_aborts_pass:
  assumes "cache_interactions env st = (cached, Inr st0)"
    and "cmd_scopes env = before @ cmd_scope # later"
    and "sync_scopes env (st0, []) before = (log, Inr sg1)"
    and "snd (sync_scope env sg1 cmd_scope) = Inl Forbidden"
  shows "synchronise_interactions env st =
           (cached @ log @ fst (sync_scope env sg1 cmd_scope),
            Inl (InteractionMissingAccess cmd_scope))"
  using assms(1,2) sync_scopes_forbidden [OF assms(3,4), of later]
  by (simp add: synchronise_interactions_def)

text \<open>The amended claim C5 at the small registry of guild 1.\<close>

theorem forbidden_scope_aborts_pass_witness:
  "cache_interactions guild_env ping_state =
     ([Get GLOBAL_SCOPE, Get (Guild 1)], Inr ping_state) \<and>
   cmd_scopes guild_env = [] @ Guild 1 # [GLOBAL_SCOPE] \<and>
   sync_scope guild_env (ping_state, []) (Guild 1) = ([Get (Guild 1)], Inl Forbidden) \<and>
   synchronise_interactions guild_env ping_state =
     ([Get GLOBAL_SCOPE, Get (Guild 1), Get (Guild 1)],
      Inl (InteractionMissingAccess (Guild 1)))"
proof -
  have c: "cache_interactions guild_env ping_state =
           ([Get GLOBAL_SCOPE, Get (Guild 1)], Inr ping_state)"
    by (simp add: cache_interactions_def bot_scopes_def local_refs_def cache_local_def
          ping_defs guild_env_def)
  have s: "cmd_scopes guild_env = [] @ Guild 1 # [GLOBAL_SCOPE]"
    by (simp add: cmd_scopes_def ping_defs guild_env_def)
  have b: "sync_scopes guild_env (ping_state, []) [] = ([], Inr (ping_state, []))"
    by simp
  have f: "sync_scope guild_env (ping_state, []) (Guild 1) = ([Get (Guild 1)], Inl Forbidden)"
    by (simp add: sync_scope_def ping_defs guild_env_def)
  then have f': "snd (sync_scope guild_env (ping_state, []) (Guild 1)) = Inl Forbidden"
    by simp
  show ?thesis
    using forbidden_scope_aborts_pass [OF c s b f'] c s f by simp
qed

end
